theory Spec2Isabelle
  imports Complex_Main "HOL-Library.FSet" "HOL-Library.List_Lexorder" "HOL-Library.Char_ord"
    "HOL-Library.Sublist" "HOL-Library.Log_Nat" "HOL-Library.Word"
begin

section \<open>Findings page: severity canonicalization and the file-level filter\<close>

text \<open>
  Source: \<^verbatim>\<open>src/app/findings/page.tsx\<close>. A JavaScript string is modelled as a
  \<^typ>\<open>string\<close>; an optional field (\<^verbatim>\<open>severity?: string\<close>) as an option, where
  \<^const>\<open>None\<close> stands for \<^verbatim>\<open>undefined\<close>.
\<close>

record finding =
  ruleId :: "string option"
  category :: "string option"
  severity :: "string option"
  description :: "string option"
  rankedSeverity :: "string option"

record scan_file =
  path :: string
  language :: "string option"
  findings :: "finding list option"

record filter_spec =
  f_severity :: "string fset"
  f_category :: "string fset"
  cryptoOnly :: bool

text \<open>
  \<^verbatim>\<open>a || b\<close> on optional strings: the left operand is taken when it is truthy, that is
  present and not the empty string.
\<close>

definition truthy_str :: "string option \<Rightarrow> bool" where
  "truthy_str a = (case a of None \<Rightarrow> False | Some s \<Rightarrow> s \<noteq> [])"

definition or_else :: "string option \<Rightarrow> string option \<Rightarrow> string option" where
  "or_else a b = (if truthy_str a then a else b)"

definition or_default :: "string option \<Rightarrow> string \<Rightarrow> string" where
  "or_default a d = (case a of None \<Rightarrow> d | Some s \<Rightarrow> if s = [] then d else s)"

text \<open>
  \<^verbatim>\<open>String.prototype.toLowerCase\<close>, on the letters \<^verbatim>\<open>A\<close> to \<^verbatim>\<open>Z\<close>; every other
  character is kept. (No character outside ASCII lower-cases to an ASCII letter sequence
  that spells one of the seven labels compared below.)
\<close>

definition lower_char :: "char \<Rightarrow> char" where
  "lower_char c =
     (case map_of (zip ''ABCDEFGHIJKLMNOPQRSTUVWXYZ'' ''abcdefghijklmnopqrstuvwxyz'') c of
        None \<Rightarrow> c
      | Some d \<Rightarrow> d)"

definition toLowerCase :: "string \<Rightarrow> string" where
  "toLowerCase s = map lower_char s"

text \<open>
  \<^verbatim>\<open>const raw = (finding.rankedSeverity || finding.severity || "info").toLowerCase();\<close>
\<close>

definition raw_label :: "finding \<Rightarrow> string" where
  "raw_label f = toLowerCase (or_default (or_else (rankedSeverity f) (severity f)) ''info'')"

definition canonicalSeverity :: "finding \<Rightarrow> string" where
  "canonicalSeverity f =
     (let raw = raw_label f in
      if raw = ''critical'' \<or> raw = ''error'' \<or> raw = ''high'' then ''high''
      else if raw = ''warning'' \<or> raw = ''medium'' then ''medium''
      else if raw = ''info'' \<or> raw = ''informational'' then ''info''
      else ''low'')"

text \<open>
  The \<^verbatim>\<open>filteredFiles\<close> memo of \<^verbatim>\<open>FindingsPage\<close>. \<^verbatim>\<open>(f.findings || [])\<close> reads a
  missing findings array as the empty one; \<^verbatim>\<open>!sev.size\<close> holds of the empty set.
\<close>

definition findings_of :: "scan_file \<Rightarrow> finding list" where
  "findings_of f = (case findings f of None \<Rightarrow> [] | Some fs \<Rightarrow> fs)"

definition category_key :: "finding \<Rightarrow> string" where
  "category_key fi = toLowerCase (or_default (category fi) ''other'')"

definition finding_matches :: "filter_spec \<Rightarrow> finding \<Rightarrow> bool" where
  "finding_matches filters fi =
     ((f_severity filters = {||} \<or> canonicalSeverity fi |\<in>| f_severity filters) \<and>
      (f_category filters = {||} \<or> category_key fi |\<in>| f_category filters))"

definition file_passes :: "filter_spec \<Rightarrow> scan_file \<Rightarrow> bool" where
  "file_passes filters f =
     (let hasFindings = length (findings_of f) > 0 in
      if cryptoOnly filters \<and> \<not> hasFindings then False
      else if f_severity filters = {||} \<and> f_category filters = {||} then True
      else list_ex (finding_matches filters) (findings_of f))"

definition filteredFiles :: "scan_file list \<Rightarrow> filter_spec \<Rightarrow> scan_file list" where
  "filteredFiles files filters = filter (file_passes filters) files"

text \<open>Findings used as concrete inputs below.\<close>

definition sev_finding :: "string option \<Rightarrow> string option \<Rightarrow> finding" where
  "sev_finding r s =
     \<lparr>ruleId = None, category = None, severity = s, description = None, rankedSeverity = r\<rparr>"

definition cat_finding :: "string \<Rightarrow> string \<Rightarrow> finding" where
  "cat_finding s c =
     \<lparr>ruleId = None, category = Some c, severity = Some s, description = None,
      rankedSeverity = None\<rparr>"

definition scenario_files :: "scan_file list" where
  "scenario_files =
     [\<lparr>path = ''a.py'', language = None, findings = Some [cat_finding ''high'' ''cipher'']\<rparr>,
      \<lparr>path = ''b.js'', language = None, findings = Some []\<rparr>,
      \<lparr>path = ''c.go'', language = None,
       findings = Some [cat_finding ''low'' ''hash'', cat_finding ''medium'' ''hash'']\<rparr>]"

lemmas severity_eval =
  canonicalSeverity_def raw_label_def or_default_def or_else_def truthy_str_def
  toLowerCase_def lower_char_def sev_finding_def cat_finding_def

lemmas filter_eval =
  filteredFiles_def file_passes_def findings_of_def finding_matches_def category_key_def

subsection \<open>Severity canonicalization\<close>

lemma toLowerCase_info: "toLowerCase ''info'' = ''info''"
  by (simp add: toLowerCase_def lower_char_def)

text \<open>
  Claim C1. \<^const>\<open>canonicalSeverity\<close> is total over the four canonical buckets: every
  finding is classified as exactly one of \<^verbatim>\<open>high\<close>, \<^verbatim>\<open>medium\<close>, \<^verbatim>\<open>low\<close>, \<^verbatim>\<open>info\<close>.
  With \<^verbatim>\<open>raw\<close> the label the function computes (the first non-empty of
  \<^verbatim>\<open>rankedSeverity\<close>, \<^verbatim>\<open>severity\<close> and \<^verbatim>\<open>"info"\<close>, lower-cased), a raw label in
  \<^verbatim>\<open>{critical, error, high}\<close> gives \<^verbatim>\<open>high\<close>, one in \<^verbatim>\<open>{warning, medium}\<close> gives
  \<^verbatim>\<open>medium\<close>, one in \<^verbatim>\<open>{info, informational}\<close> gives \<^verbatim>\<open>info\<close>, and every other raw
  label gives \<^verbatim>\<open>low\<close>.
\<close>

theorem canonicalSeverity_buckets:
  "canonicalSeverity f \<in> {''high'', ''medium'', ''low'', ''info''} \<and>
   (raw_label f \<in> {''critical'', ''error'', ''high''} \<longrightarrow> canonicalSeverity f = ''high'') \<and>
   (raw_label f \<in> {''warning'', ''medium''} \<longrightarrow> canonicalSeverity f = ''medium'') \<and>
   (raw_label f \<in> {''info'', ''informational''} \<longrightarrow> canonicalSeverity f = ''info'') \<and>
   (raw_label f \<notin> {''critical'', ''error'', ''high'', ''warning'', ''medium'', ''info'',
        ''informational''} \<longrightarrow> canonicalSeverity f = ''low'')"
  by (auto simp: canonicalSeverity_def Let_def)

theorem canonicalSeverity_buckets_witness:
  "raw_label (sev_finding None (Some ''critical'')) = ''critical'' \<and>
   canonicalSeverity (sev_finding None (Some ''critical'')) = ''high'' \<and>
   raw_label (sev_finding None (Some ''warning'')) = ''warning'' \<and>
   canonicalSeverity (sev_finding None (Some ''warning'')) = ''medium'' \<and>
   raw_label (sev_finding None (Some ''informational'')) = ''informational'' \<and>
   canonicalSeverity (sev_finding None (Some ''informational'')) = ''info'' \<and>
   raw_label (sev_finding None (Some ''nonsense'')) = ''nonsense'' \<and>
   canonicalSeverity (sev_finding None (Some ''nonsense'')) = ''low''"
proof -
  have r1: "raw_label (sev_finding None (Some ''critical'')) = ''critical''"
    and r2: "raw_label (sev_finding None (Some ''warning'')) = ''warning''"
    and r3: "raw_label (sev_finding None (Some ''informational'')) = ''informational''"
    and r4: "raw_label (sev_finding None (Some ''nonsense'')) = ''nonsense''"
    by (simp_all add: raw_label_def or_default_def or_else_def truthy_str_def toLowerCase_def
        lower_char_def sev_finding_def)
  show ?thesis
    using canonicalSeverity_buckets [of "sev_finding None (Some ''critical'')"]
      canonicalSeverity_buckets [of "sev_finding None (Some ''warning'')"]
      canonicalSeverity_buckets [of "sev_finding None (Some ''informational'')"]
      canonicalSeverity_buckets [of "sev_finding None (Some ''nonsense'')"]
    unfolding r1 r2 r3 r4 by simp
qed

text \<open>
  Claim C10. When \<^verbatim>\<open>rankedSeverity\<close> is present (a non-empty string; JavaScript's
  \<^verbatim>\<open>||\<close> skips the empty one), it alone decides the bucket: the raw label is its
  lower-cased value and the \<^verbatim>\<open>severity\<close> field has no influence. A finding with
  neither field set is classified as \<^verbatim>\<open>info\<close>, not \<^verbatim>\<open>low\<close>.
\<close>

theorem canonicalSeverity_prefers_ranked:
  "(rankedSeverity f = Some r \<and> r \<noteq> [] \<longrightarrow>
      raw_label f = toLowerCase r \<and>
      canonicalSeverity (f\<lparr>severity := s\<rparr>) = canonicalSeverity f) \<and>
   ((rankedSeverity f = None \<or> rankedSeverity f = Some []) \<and>
    (severity f = None \<or> severity f = Some []) \<longrightarrow> canonicalSeverity f = ''info'')"
  by (auto simp: canonicalSeverity_def raw_label_def or_default_def or_else_def truthy_str_def
      toLowerCase_info)

theorem canonicalSeverity_prefers_ranked_witness:
  "canonicalSeverity (sev_finding (Some ''HIGH'') (Some ''low'')) = ''high'' \<and>
   canonicalSeverity (sev_finding (Some ''HIGH'') None) = ''high'' \<and>
   canonicalSeverity (sev_finding None (Some ''low'')) = ''low'' \<and>
   canonicalSeverity (sev_finding None None) = ''info''"
proof -
  have a: "canonicalSeverity (sev_finding (Some ''HIGH'') None) = ''high''"
    by (simp add: severity_eval)
  have b: "(sev_finding (Some ''HIGH'') None)\<lparr>severity := Some ''low''\<rparr> =
      sev_finding (Some ''HIGH'') (Some ''low'')"
    by (simp add: sev_finding_def)
  have c: "canonicalSeverity (sev_finding None (Some ''low'')) = ''low''"
    by (simp add: severity_eval)
  have h1: "rankedSeverity (sev_finding (Some ''HIGH'') None) = Some ''HIGH'' \<and> ''HIGH'' \<noteq> []"
    by (simp add: sev_finding_def)
  have h2: "(rankedSeverity (sev_finding None None) = None \<or>
       rankedSeverity (sev_finding None None) = Some []) \<and>
      (severity (sev_finding None None) = None \<or> severity (sev_finding None None) = Some [])"
    by (simp add: sev_finding_def)
  have d: "canonicalSeverity (sev_finding (Some ''HIGH'') (Some ''low'')) =
      canonicalSeverity (sev_finding (Some ''HIGH'') None)"
    using canonicalSeverity_prefers_ranked
        [of "sev_finding (Some ''HIGH'') None" "''HIGH''" "Some ''low''"] h1
    unfolding b by blast
  have e: "canonicalSeverity (sev_finding None None) = ''info''"
    using canonicalSeverity_prefers_ranked [of "sev_finding None None" "''x''" None] h2
    by blast
  show ?thesis
    using a c d e by simp
qed

subsection \<open>The file-level filter\<close>

lemma file_passes_iff:
  "file_passes filters f \<longleftrightarrow>
     (\<not> cryptoOnly filters \<or> findings_of f \<noteq> []) \<and>
     ((f_severity filters = {||} \<and> f_category filters = {||}) \<or>
      (\<exists>fi \<in> set (findings_of f). finding_matches filters fi))"
  by (auto simp: file_passes_def list_ex_iff)

text \<open>
  Claim C4. With both the severity set and the category set empty and \<^verbatim>\<open>cryptoOnly\<close>
  false, the file-level filter passes every file: the filtered list is the input list,
  unchanged. An empty set restricts nothing.
\<close>

theorem filteredFiles_empty_filter:
  "f_severity filters = {||} \<Longrightarrow> f_category filters = {||} \<Longrightarrow> \<not> cryptoOnly filters \<Longrightarrow>
   filteredFiles files filters = files"
  by (simp add: filteredFiles_def file_passes_def)

theorem filteredFiles_empty_filter_witness:
  "filteredFiles scenario_files \<lparr>f_severity = {||}, f_category = {||}, cryptoOnly = False\<rparr> =
     scenario_files \<and> length scenario_files = 3"
  using filteredFiles_empty_filter
    [of "\<lparr>f_severity = {||}, f_category = {||}, cryptoOnly = False\<rparr>" scenario_files]
  by (simp add: scenario_files_def)

text \<open>
  Claim C5, as stated: with \<^verbatim>\<open>cryptoOnly\<close> true the filter keeps every file with at
  least one finding, whatever the severity and category sets hold. The code does not: a
  file whose only finding is of low severity is removed when the severity set is
  \<^verbatim>\<open>{high}\<close>.
\<close>

theorem filteredFiles_cryptoOnly_counterexample:
  "length (findings_of
      \<lparr>path = ''c.go'', language = None, findings = Some [cat_finding ''low'' ''hash'']\<rparr>) = 1 \<and>
   filteredFiles
     [\<lparr>path = ''c.go'', language = None, findings = Some [cat_finding ''low'' ''hash'']\<rparr>]
     \<lparr>f_severity = {|''high''|}, f_category = {||}, cryptoOnly = True\<rparr> = []"
  by (simp add: filter_eval severity_eval)

text \<open>
  Claim C5, amended. With \<^verbatim>\<open>cryptoOnly\<close> true, a file with no finding is always
  removed, and a file with at least one finding is kept exactly when both sets are empty
  or one of its findings satisfies the severity and the category restriction (each
  satisfied by an empty set). With both sets empty the files kept are exactly those with
  at least one finding. Order is preserved.
\<close>

theorem filteredFiles_cryptoOnly:
  "cryptoOnly filters \<Longrightarrow>
   filteredFiles files filters =
     filter (\<lambda>f. findings_of f \<noteq> [] \<and>
                 ((f_severity filters = {||} \<and> f_category filters = {||}) \<or>
                  (\<exists>fi \<in> set (findings_of f). finding_matches filters fi))) files \<and>
   (\<forall>f \<in> set (filteredFiles files filters). findings_of f \<noteq> []) \<and>
   (f_severity filters = {||} \<and> f_category filters = {||} \<longrightarrow>
      filteredFiles files filters = filter (\<lambda>f. findings_of f \<noteq> []) files)"
proof -
  assume c: "cryptoOnly filters"
  have p: "file_passes filters =
      (\<lambda>f. findings_of f \<noteq> [] \<and>
                 ((f_severity filters = {||} \<and> f_category filters = {||}) \<or>
                  (\<exists>fi \<in> set (findings_of f). finding_matches filters fi)))"
    using c by (simp add: fun_eq_iff file_passes_iff)
  show ?thesis
    unfolding filteredFiles_def p by simp
qed

theorem filteredFiles_cryptoOnly_witness:
  "map path (filteredFiles scenario_files
      \<lparr>f_severity = {||}, f_category = {||}, cryptoOnly = True\<rparr>) = [''a.py'', ''c.go'']"
  using filteredFiles_cryptoOnly
    [of "\<lparr>f_severity = {||}, f_category = {||}, cryptoOnly = True\<rparr>" scenario_files]
  by (simp add: scenario_files_def findings_of_def)

section \<open>File paths as sequences of code units\<close>

text \<open>
  The tree builders split a file path at the slash and sort names with \<^verbatim>\<open>sort()\<close>,
  which compares two strings by their UTF-16 code units. A file path, and every name and
  path made of one, is therefore modelled as the list of its code units. \<open>utf16\<close> gives
  the units of a string of ASCII characters; the concrete paths below are written with it.
\<close>

type_synonym jstring = "16 word list"

definition utf16 :: "string \<Rightarrow> jstring" where
  "utf16 s = map of_char s"

definition slash :: "16 word" where
  "slash = 0x2F"

section \<open>Analyzer page: the analysis result and its files collection\<close>

text \<open>
  Source: \<^verbatim>\<open>getFilesCollection\<close> in \<^verbatim>\<open>src/app/analyzer/page.tsx\<close>, and its copy in
  \<^verbatim>\<open>src/unnamed/part_000\<close>, which computes the same list. The \<^verbatim>\<open>repo\<close> object of a
  result is flattened into the two fields the page reads from it.
\<close>

record basic_crypto_analysis =
  file_path :: jstring
  file_name :: string
  file_extension :: string
  has_crypto :: bool

record gemini_review =
  original_analysis :: "basic_crypto_analysis option"
  gemini_analysis :: "string option"

record analysis_result =
  status :: "string option"
  total_files :: "int option"
  crypto_files_found :: "int option"
  basic_analysis :: "basic_crypto_analysis list option"
  detailed_reviews :: "gemini_review list option"
  versionId :: "string option"
  repo_versionId :: "string option"
  repo_id :: "string option"

text \<open>
  \<^verbatim>\<open>analysis: r.original_analysis || (r as unknown as BasicCryptoAnalysis)\<close>: the
  analysis of an entry is the review's original analysis or, when that is missing, the
  review object itself under a cast.
\<close>

datatype analysis_ref = Analysis basic_crypto_analysis | ReviewItself gemini_review

record files_collection_entry =
  analysis :: analysis_ref
  review :: "gemini_review option"

text \<open>\<^verbatim>\<open>a?.length\<close> is truthy for an array that is present and not empty.\<close>

definition nonempty_array :: "'a list option \<Rightarrow> bool" where
  "nonempty_array a = (case a of None \<Rightarrow> False | Some xs \<Rightarrow> length xs \<noteq> 0)"

definition array_items :: "'a list option \<Rightarrow> 'a list" where
  "array_items a = (case a of None \<Rightarrow> [] | Some xs \<Rightarrow> xs)"

definition review_entry :: "gemini_review \<Rightarrow> files_collection_entry" where
  "review_entry r =
     \<lparr>analysis = (case original_analysis r of Some a \<Rightarrow> Analysis a | None \<Rightarrow> ReviewItself r),
      review = Some r\<rparr>"

definition basic_entry :: "basic_crypto_analysis \<Rightarrow> files_collection_entry" where
  "basic_entry a = \<lparr>analysis = Analysis a, review = None\<rparr>"

text \<open>\<^verbatim>\<open>.filter(x => x.analysis)\<close>: both kinds of analysis are objects, hence truthy.\<close>

fun analysis_truthy :: "analysis_ref \<Rightarrow> bool" where
  "analysis_truthy (Analysis a) = True"
| "analysis_truthy (ReviewItself r) = True"

definition getFilesCollection :: "analysis_result option \<Rightarrow> files_collection_entry list" where
  "getFilesCollection result =
     (case result of
        None \<Rightarrow> []
      | Some res \<Rightarrow>
          if nonempty_array (detailed_reviews res)
          then filter (\<lambda>x. analysis_truthy (analysis x))
                 (map review_entry (array_items (detailed_reviews res)))
          else if nonempty_array (basic_analysis res)
          then map basic_entry (array_items (basic_analysis res))
          else [])"

text \<open>Results used as concrete inputs below.\<close>

definition analysis_of :: "string \<Rightarrow> basic_crypto_analysis" where
  "analysis_of p =
     \<lparr>file_path = utf16 p, file_name = p, file_extension = [], has_crypto = True\<rparr>"

definition result_of ::
  "gemini_review list option \<Rightarrow> basic_crypto_analysis list option \<Rightarrow> string option
     \<Rightarrow> analysis_result" where
  "result_of dr ba v =
     \<lparr>status = None, total_files = None, crypto_files_found = None, basic_analysis = ba,
      detailed_reviews = dr, versionId = v, repo_versionId = None, repo_id = None\<rparr>"

lemma analysis_truthy_all: "analysis_truthy a"
  by (cases a) simp_all

text \<open>
  Claim C9. The files collection follows a strict priority and never merges: when
  \<^verbatim>\<open>detailed_reviews\<close> is present and non-empty the collection is built from it alone,
  one entry per review; otherwise, when \<^verbatim>\<open>basic_analysis\<close> is present and non-empty,
  from it alone; otherwise it is empty. Entries of the two sources never appear together:
  either every entry carries a review, or none does.
\<close>

theorem getFilesCollection_priority:
  "getFilesCollection None = [] \<and>
   (nonempty_array (detailed_reviews res) \<longrightarrow>
      getFilesCollection (Some res) = map review_entry (array_items (detailed_reviews res))) \<and>
   (\<not> nonempty_array (detailed_reviews res) \<and> nonempty_array (basic_analysis res) \<longrightarrow>
      getFilesCollection (Some res) = map basic_entry (array_items (basic_analysis res))) \<and>
   (\<not> nonempty_array (detailed_reviews res) \<and> \<not> nonempty_array (basic_analysis res) \<longrightarrow>
      getFilesCollection (Some res) = []) \<and>
   ((\<forall>e \<in> set (getFilesCollection (Some res)).
        \<exists>r \<in> set (array_items (detailed_reviews res)). e = review_entry r \<and> review e = Some r) \<or>
    (\<forall>e \<in> set (getFilesCollection (Some res)).
        \<exists>a \<in> set (array_items (basic_analysis res)). e = basic_entry a \<and> review e = None))"
  by (auto simp: getFilesCollection_def analysis_truthy_all review_entry_def basic_entry_def)

theorem getFilesCollection_priority_witness:
  "getFilesCollection
     (Some (result_of (Some [\<lparr>original_analysis = Some (analysis_of ''a.py''),
                              gemini_analysis = None\<rparr>])
              (Some [analysis_of ''a.py'', analysis_of ''b.js'']) None)) =
     [\<lparr>analysis = Analysis (analysis_of ''a.py''),
       review = Some \<lparr>original_analysis = Some (analysis_of ''a.py''), gemini_analysis = None\<rparr>\<rparr>] \<and>
   getFilesCollection
     (Some (result_of (Some []) (Some [analysis_of ''a.py'', analysis_of ''b.js'']) None)) =
     [\<lparr>analysis = Analysis (analysis_of ''a.py''), review = None\<rparr>,
      \<lparr>analysis = Analysis (analysis_of ''b.js''), review = None\<rparr>] \<and>
   getFilesCollection (Some (result_of None None None)) = []"
  using getFilesCollection_priority
      [of "result_of (Some [\<lparr>original_analysis = Some (analysis_of ''a.py''),
                              gemini_analysis = None\<rparr>])
              (Some [analysis_of ''a.py'', analysis_of ''b.js'']) None"]
    getFilesCollection_priority
      [of "result_of (Some []) (Some [analysis_of ''a.py'', analysis_of ''b.js'']) None"]
    getFilesCollection_priority [of "result_of None None None"]
  by (simp add: result_of_def nonempty_array_def array_items_def review_entry_def
      basic_entry_def)

section \<open>Directory entries derived from file paths\<close>

text \<open>
  Source: the types of \<^verbatim>\<open>src/app/analyzer/page.tsx\<close>, and the inline code of its
  \<^verbatim>\<open>cached\<close> and \<^verbatim>\<open>done\<close> listeners that decomposes each file path into one entry
  per segment. The \<^verbatim>\<open>level\<close> of an entry is a JavaScript number, modelled as an
  integer.
\<close>

datatype node_type = Folder | File

record directory_entry =
  e_type :: node_type
  e_name :: jstring
  e_path :: jstring
  e_level :: int
  e_supported :: "bool option"

text \<open>\<^verbatim>\<open>p.split('/')\<close>: the pieces between slashes, empty ones included.\<close>

fun split_slash :: "jstring \<Rightarrow> jstring list" where
  "split_slash [] = [[]]"
| "split_slash (c # cs) =
     (if c = slash then [] # split_slash cs
      else (case split_slash cs of [] \<Rightarrow> [[c]] | s # ss \<Rightarrow> (c # s) # ss))"

text \<open>\<^verbatim>\<open>p.split('/').filter(Boolean)\<close>: the empty string is the only falsy piece.\<close>

definition path_parts :: "jstring \<Rightarrow> jstring list" where
  "path_parts p = filter (\<lambda>s. s \<noteq> []) (split_slash p)"

text \<open>
  \<^verbatim>\<open>parts.forEach((seg,i) => { agg = agg ? `${agg}/${seg}` : seg; entries.push({ type:
  i===parts.length-1 ? 'file' : 'folder', name: seg, path: agg, level: i, supported: true }); })\<close>,
  started with \<^verbatim>\<open>agg = ''\<close> and \<^verbatim>\<open>i = 0\<close>.
\<close>

fun path_entries :: "jstring \<Rightarrow> int \<Rightarrow> jstring list \<Rightarrow> directory_entry list" where
  "path_entries agg i [] = []"
| "path_entries agg i (seg # rest) =
     (let agg' = (if agg \<noteq> [] then agg @ [slash] @ seg else seg) in
      \<lparr>e_type = (if rest = [] then File else Folder), e_name = seg, e_path = agg',
       e_level = i, e_supported = Some True\<rparr> # path_entries agg' (i + 1) rest)"

definition entriesFromPaths :: "jstring list \<Rightarrow> directory_entry list" where
  "entriesFromPaths paths = concat (map (\<lambda>p. path_entries [] 0 (path_parts p)) paths)"

text \<open>
  \<^verbatim>\<open>getFilesCollection(data).map(f => f.analysis.file_path)\<close> followed by the
  decomposition. A review that stands in for its missing analysis has no
  \<^verbatim>\<open>file_path\<close>; \<^verbatim>\<open>p.split\<close> then throws a TypeError, which is the result
  \<^const>\<open>None\<close> here.
\<close>

fun analysis_file_path :: "analysis_ref \<Rightarrow> jstring option" where
  "analysis_file_path (Analysis a) = Some (file_path a)"
| "analysis_file_path (ReviewItself r) = None"

definition result_entries :: "analysis_result option \<Rightarrow> directory_entry list option" where
  "result_entries data =
     map_option entriesFromPaths
       (those (map (\<lambda>f. analysis_file_path (analysis f)) (getFilesCollection data)))"

section \<open>Analyzer page: the streaming progress reconciler\<close>

text \<open>
  Source: \<^verbatim>\<open>onAnalyzeLocal\<close>, \<^verbatim>\<open>onAnalyzeGit\<close> and \<^verbatim>\<open>onAnalyzeZip\<close> in
  \<^verbatim>\<open>src/app/analyzer/page.tsx\<close>. The page is single-threaded: each listener runs to
  completion, so a listener is a function from the state before it to the state after it,
  and a stream is the list of the events delivered.

  The state holds the React state the listeners write, the variables their closure shares
  (\<^verbatim>\<open>finished\<close>, \<^verbatim>\<open>safetyTimer\<close>, \<^verbatim>\<open>eventCount\<close>), whether \<^verbatim>\<open>es.close()\<close> was called,
  the targets passed to \<^verbatim>\<open>router.push\<close>, and the callbacks handed to \<^verbatim>\<open>setTimeout\<close>
  that have not run yet. The field \<open>finalizeRuns\<close> is not in the source: it counts how
  often the body of \<^verbatim>\<open>finalize\<close> ran past its guard.
\<close>

datatype mode = Local | Upload | Git | Stored

datatype ready_state = CONNECTING | OPEN | CLOSED

text \<open>
  A progress message is a literal or one of the two template strings
  \<^verbatim>\<open>`scanning ${total} files`\<close> and \<^verbatim>\<open>`scanning files: ${done}/${total}`\<close>, kept with
  their arguments.
\<close>

datatype message = Text string | ScanningTotal int | ScanningOf int int

text \<open>
  \<^verbatim>\<open>/findings\<close>, or \<^verbatim>\<open>/findings?versionId=...\<close> with the version identifier (before
  URI encoding).
\<close>

datatype route = FindingsPage | FindingsVersion string

text \<open>
  The 500 ms callback of \<^verbatim>\<open>finalize\<close>, with the route it will push, and the 1000 ms
  callback of \<^verbatim>\<open>stopProgress\<close>.
\<close>

datatype timer = CompletionTimer route | ResetTimer

text \<open>\<^verbatim>\<open>JSON.parse(ev.data)\<close> throws or returns a value.\<close>

datatype 'a parsed = ParseError | Parsed 'a

text \<open>
  What the progress listeners read of a parsed value: \<^verbatim>\<open>d?.message\<close>, \<^verbatim>\<open>d?.done\<close>,
  \<^verbatim>\<open>d?.total\<close>; the counts are integers. What the terminal listeners read is an
  analysis result, or \<^const>\<open>None\<close> for a falsy value such as \<^verbatim>\<open>null\<close>.
\<close>

record progress_data =
  pd_message :: "string option"
  pd_done :: "int option"
  pd_total :: "int option"

datatype sse_event =
    EvOpen
  | EvMessage
  | EvError ready_state
  | EvCloning "progress_data parsed"
  | EvCollecting "progress_data parsed"
  | EvStart "progress_data parsed"
  | EvScanning "progress_data parsed"
  | EvIndexing "progress_data parsed"
  | EvEnriching "progress_data parsed"
  | EvCached "analysis_result option parsed"
  | EvDone "analysis_result option parsed"
  | EvPing
  | EvInactivity
  | EvTimer nat

record page_state =
  analysisResult :: "analysis_result option"
  treeEntries :: "directory_entry list"
  loading :: bool
  activeJob :: "mode option"
  progressPct :: int
  progressMsg :: message
  routerPushes :: "route list"
  pendingTimers :: "timer list"
  finished :: bool
  esClosed :: bool
  safetyTimer :: bool
  eventCount :: nat
  finalizeRuns :: nat

definition initial_page :: page_state where
  "initial_page =
     \<lparr>analysisResult = None, treeEntries = [], loading = False, activeJob = None,
      progressPct = 0, progressMsg = Text ''initializing...'', routerPushes = [],
      pendingTimers = [], finished = False, esClosed = False, safetyTimer = False,
      eventCount = 0, finalizeRuns = 0\<rparr>"

text \<open>The character U+2026 of the default messages, in UTF-8.\<close>

definition ellipsis :: string where
  "ellipsis = [CHR 0xE2, CHR 0x80, CHR 0xA6]"

text \<open>\<^verbatim>\<open>d?.total||0\<close>, \<^verbatim>\<open>Number(d?.done||0)\<close>.\<close>

definition num_or_zero :: "int option \<Rightarrow> int" where
  "num_or_zero a = (case a of None \<Rightarrow> 0 | Some n \<Rightarrow> n)"

text \<open>
  A JavaScript number is an IEEE 754 binary64 value. A finite number is modelled by the
  rational it denotes. An arithmetic operation computes the exact result and rounds it to
  the nearest number whose significand has 53 bits, a tie going to the even significand.
  The model puts no bound on the exponent: it agrees with binary64 as long as no operand
  or result reaches \<^verbatim>\<open>2^1024\<close> in magnitude, where binary64 has \<^verbatim>\<open>Infinity\<close>, or
  lies below \<^verbatim>\<open>2^-1022\<close> without being zero, where binary64 loses precision.
\<close>

definition round_half_even :: "rat \<Rightarrow> int" where
  "round_half_even x =
     (let f = \<lfloor>x\<rfloor>; r = x - of_int f
      in if r < 1 / 2 then f else if 1 / 2 < r then f + 1 else if even f then f else f + 1)"

text \<open>
  The binary exponent of a positive number \<open>x\<close>: the \<open>e\<close> with \<open>2^e \<le> x < 2^(e+1)\<close>,
  found from the bit lengths of numerator and denominator.
\<close>

definition binary_exponent :: "rat \<Rightarrow> int" where
  "binary_exponent x =
     (let (a, b) = quotient_of x; d = bitlen a - bitlen b
      in if 2 powi d \<le> x then d else d - 1)"

text \<open>Rounding a positive number to 53 significant bits: the unit is \<open>2^(e-52)\<close>.\<close>

definition round_positive :: "rat \<Rightarrow> rat" where
  "round_positive x =
     (let e = binary_exponent x
      in of_int (round_half_even (x * 2 powi (52 - e))) * 2 powi (e - 52))"

definition to_double :: "rat \<Rightarrow> rat" where
  "to_double x =
     (if x = 0 then 0 else if 0 < x then round_positive x else - round_positive (- x))"

text \<open>
  \<^verbatim>\<open>Math.round\<close> gives the nearest integer, a half going upwards; its result is exact.
\<close>

definition js_round :: "rat \<Rightarrow> int" where
  "js_round x = \<lfloor>x + 1 / 2\<rfloor>"

text \<open>
  \<^verbatim>\<open>total > 0 ? Math.min(90, 10 + Math.round((done/total)*75)) : 15\<close> (local, ZIP).
  The arguments are the integers written in the payload; \<^verbatim>\<open>done\<close> and \<^verbatim>\<open>total\<close> are
  the numbers \<^verbatim>\<open>JSON.parse\<close> made of them. The division, the multiplication and the
  addition round. The result is an integer.
\<close>

definition scanning_pct_local :: "int \<Rightarrow> int \<Rightarrow> int" where
  "scanning_pct_local dn tot =
     (let d = to_double (of_int dn); t = to_double (of_int tot)
      in if t > 0
         then min 90 \<lfloor>to_double (10 + of_int (js_round (to_double (to_double (d / t) * 75))))\<rfloor>
         else 15)"

text \<open>\<^verbatim>\<open>total>0 ? Math.min(90, Math.round((done/total)*90)) : 10\<close> (Git).\<close>

definition scanning_pct_git :: "int \<Rightarrow> int \<Rightarrow> int" where
  "scanning_pct_git dn tot =
     (let d = to_double (of_int dn); t = to_double (of_int tot)
      in if t > 0
         then min 90 (js_round (to_double (to_double (d / t) * 90)))
         else 10)"

text \<open>
  \<^verbatim>\<open>resetSafety\<close> replaces the pending inactivity timeout by a new one. When that
  timeout fires it only changes the message, and only while the operation is unfinished.
\<close>

definition resetSafety :: "page_state \<Rightarrow> page_state" where
  "resetSafety st = st\<lparr>safetyTimer := True\<rparr>"

definition fire_inactivity :: "page_state \<Rightarrow> page_state" where
  "fire_inactivity st =
     (if safetyTimer st
      then (if \<not> finished st then st\<lparr>safetyTimer := False, progressMsg := Text ''still working...''\<rparr>
            else st\<lparr>safetyTimer := False\<rparr>)
      else st)"

text \<open>
  \<^verbatim>\<open>stopProgress\<close>: percent 100 now, and a callback that resets percent and message a
  second later.
\<close>

definition stopProgress :: "page_state \<Rightarrow> page_state" where
  "stopProgress st = st\<lparr>progressPct := 100, pendingTimers := pendingTimers st @ [ResetTimer]\<rparr>"

definition run_timer :: "timer \<Rightarrow> page_state \<Rightarrow> page_state" where
  "run_timer t st =
     (case t of
        CompletionTimer r \<Rightarrow> (stopProgress st)\<lparr>routerPushes := routerPushes st @ [r]\<rparr>
      | ResetTimer \<Rightarrow> st\<lparr>progressPct := 0, progressMsg := Text ''initializing...''\<rparr>)"

text \<open>The \<open>k\<close>-th pending callback runs and leaves the pending list.\<close>

definition fire_timer :: "nat \<Rightarrow> page_state \<Rightarrow> page_state" where
  "fire_timer k st =
     (if k < length (pendingTimers st)
      then run_timer (pendingTimers st ! k)
             (st\<lparr>pendingTimers := take k (pendingTimers st) @ drop (Suc k) (pendingTimers st)\<rparr>)
      else st)"

text \<open>\<^verbatim>\<open>targetVersion ? `/findings?versionId=...` : '/findings'\<close>.\<close>

definition target_route :: "string option \<Rightarrow> route" where
  "target_route v =
     (case v of None \<Rightarrow> FindingsPage | Some s \<Rightarrow> if s = [] then FindingsPage else FindingsVersion s)"

subsection \<open>Local-path scan\<close>

text \<open>
  \<^verbatim>\<open>onAnalyzeLocal\<close> up to the creation of the event source: a fresh closure with
  \<^verbatim>\<open>finished = false\<close>, \<^verbatim>\<open>eventCount = 0\<close>, and a first \<^verbatim>\<open>resetSafety()\<close>.
\<close>

definition start_local :: "page_state \<Rightarrow> page_state" where
  "start_local st =
     st\<lparr>activeJob := Some Local, loading := True, progressPct := 1,
        progressMsg := Text ''initializing...'', finished := False, esClosed := False,
        safetyTimer := True, eventCount := 0, finalizeRuns := 0\<rparr>"


definition finalize_local :: "analysis_result option \<Rightarrow> page_state \<Rightarrow> page_state" where
  "finalize_local data st =
     (if finished st then st
      else
        let st1 = st\<lparr>finished := True, finalizeRuns := finalizeRuns st + 1, esClosed := True,
                     safetyTimer := False, loading := False, activeJob := None\<rparr>
        in case data of
             Some d \<Rightarrow>
               st1\<lparr>progressMsg := Text ''analysis complete!'', progressPct := 100,
                   pendingTimers := pendingTimers st1 @ [CompletionTimer (target_route (versionId d))]\<rparr>
           | None \<Rightarrow> stopProgress st1)"

definition count_event :: "page_state \<Rightarrow> page_state" where
  "count_event st = st\<lparr>eventCount := eventCount st + 1\<rparr>"

fun local_event :: "sse_event \<Rightarrow> page_state \<Rightarrow> page_state" where
  "local_event EvOpen st =
     resetSafety (st\<lparr>progressMsg := Text ''connected...'', progressPct := 2\<rparr>)"
| "local_event EvMessage st = resetSafety (count_event st)"
| "local_event (EvError rs) st =
     (if finished st then st
      else resetSafety
        (if rs = CLOSED then finalize_local None st
         else if rs = CONNECTING then st\<lparr>progressMsg := Text ''reconnecting...''\<rparr>
         else st))"
| "local_event (EvCollecting d) st =
     resetSafety
       (case d of
          ParseError \<Rightarrow> count_event st
        | Parsed pd \<Rightarrow>
            (count_event st)\<lparr>progressMsg := Text (or_default (pd_message pd) (''collecting files'' @ ellipsis)),
                             progressPct := 5\<rparr>)"
| "local_event (EvStart d) st =
     resetSafety
       (case d of
          ParseError \<Rightarrow> count_event st
        | Parsed pd \<Rightarrow>
            (count_event st)\<lparr>progressMsg := ScanningTotal (num_or_zero (pd_total pd)),
                             progressPct := 10\<rparr>)"
| "local_event (EvScanning d) st =
     resetSafety
       (case d of
          ParseError \<Rightarrow> count_event st
        | Parsed pd \<Rightarrow>
            (let dn = num_or_zero (pd_done pd); tot = num_or_zero (pd_total pd) in
             (count_event st)\<lparr>progressPct := scanning_pct_local dn tot,
                              progressMsg := ScanningOf dn tot\<rparr>))"
| "local_event (EvIndexing d) st =
     resetSafety
       (case d of
          ParseError \<Rightarrow> count_event st
        | Parsed pd \<Rightarrow>
            (count_event st)\<lparr>progressMsg := Text (or_default (pd_message pd) (''indexing'' @ ellipsis))\<rparr>)"
| "local_event (EvEnriching d) st =
     resetSafety
       (case d of
          ParseError \<Rightarrow> count_event st
        | Parsed pd \<Rightarrow>
            (count_event st)\<lparr>progressMsg := Text (or_default (pd_message pd) (''enriching findings'' @ ellipsis)),
                             progressPct := 92\<rparr>)"
| "local_event (EvDone d) st =
     (let st' = count_event st in
      if finished st' then st'
      else (case d of
              ParseError \<Rightarrow> finalize_local None st'
            | Parsed data \<Rightarrow> finalize_local data (st'\<lparr>analysisResult := data\<rparr>)))"
| "local_event EvPing st = resetSafety st"
| "local_event EvInactivity st = fire_inactivity st"
| "local_event (EvTimer k) st = fire_timer k st"
| "local_event (EvCloning d) st = st"
| "local_event (EvCached d) st = st"

subsection \<open>Git-URL scan\<close>

definition start_git :: "page_state \<Rightarrow> page_state" where
  "start_git st =
     st\<lparr>activeJob := Some Git, loading := True, progressPct := 1,
        progressMsg := Text ''connecting...'', finished := False, esClosed := False,
        safetyTimer := True, finalizeRuns := 0\<rparr>"


definition finalize_git :: "analysis_result option \<Rightarrow> page_state \<Rightarrow> page_state" where
  "finalize_git data st =
     (if finished st then st
      else
        let st1 = st\<lparr>finished := True, finalizeRuns := finalizeRuns st + 1, esClosed := True,
                     safetyTimer := False, loading := False, activeJob := None\<rparr>
        in case data of
             Some d \<Rightarrow>
               st1\<lparr>progressMsg := Text ''analysis complete!'', progressPct := 100,
                   pendingTimers := pendingTimers st1 @
                     [CompletionTimer (target_route (or_else (repo_versionId d) (versionId d)))]\<rparr>
           | None \<Rightarrow> stopProgress st1)"

text \<open>
  The listeners for \<^verbatim>\<open>cloning\<close>, \<^verbatim>\<open>collecting\<close>, \<^verbatim>\<open>indexing\<close> and \<^verbatim>\<open>enriching\<close>
  set the message from the payload, or the default message when parsing fails.
\<close>

definition git_message :: "progress_data parsed \<Rightarrow> string \<Rightarrow> message" where
  "git_message d dflt = (case d of ParseError \<Rightarrow> Text dflt | Parsed pd \<Rightarrow> Text (or_default (pd_message pd) dflt))"

fun git_event :: "sse_event \<Rightarrow> page_state \<Rightarrow> page_state" where
  "git_event EvOpen st = resetSafety st"
| "git_event (EvCloning d) st =
     resetSafety (st\<lparr>progressMsg := git_message d (''cloning'' @ ellipsis)\<rparr>)"
| "git_event (EvCollecting d) st =
     resetSafety (st\<lparr>progressMsg := git_message d (''collecting files'' @ ellipsis)\<rparr>)"
| "git_event (EvStart d) st =
     resetSafety
       (case d of
          ParseError \<Rightarrow> st\<lparr>progressMsg := Text ''scanning files...''\<rparr>
        | Parsed pd \<Rightarrow> st\<lparr>progressMsg := ScanningTotal (num_or_zero (pd_total pd))\<rparr>)"
| "git_event (EvScanning d) st =
     resetSafety
       (case d of
          ParseError \<Rightarrow> st
        | Parsed pd \<Rightarrow>
            (let dn = num_or_zero (pd_done pd); tot = num_or_zero (pd_total pd) in
             st\<lparr>progressPct := scanning_pct_git dn tot, progressMsg := ScanningOf dn tot\<rparr>))"
| "git_event (EvIndexing d) st =
     resetSafety (st\<lparr>progressMsg := git_message d (''indexing'' @ ellipsis)\<rparr>)"
| "git_event (EvEnriching d) st =
     resetSafety (st\<lparr>progressMsg := git_message d (''enriching findings'' @ ellipsis)\<rparr>)"
| "git_event (EvCached d) st =
     (if finished st then st
      else resetSafety
        (case d of
           ParseError \<Rightarrow> st
         | Parsed data \<Rightarrow>
             (case result_entries data of
                None \<Rightarrow> st\<lparr>analysisResult := data\<rparr>
              | Some entries \<Rightarrow>
                  finalize_git data (st\<lparr>analysisResult := data, treeEntries := entries\<rparr>))))"
| "git_event (EvDone d) st =
     (if finished st then st
      else resetSafety
        (case d of
           ParseError \<Rightarrow> finalize_git None st
         | Parsed data \<Rightarrow>
             (case result_entries data of
                None \<Rightarrow> finalize_git None (st\<lparr>analysisResult := data\<rparr>)
              | Some entries \<Rightarrow>
                  finalize_git data (st\<lparr>analysisResult := data, treeEntries := entries\<rparr>))))"
| "git_event EvPing st = resetSafety st"
| "git_event (EvError rs) st =
     (if finished st then st
      else resetSafety (if rs = CLOSED then finalize_git None st else st))"
| "git_event EvInactivity st = fire_inactivity st"
| "git_event (EvTimer k) st = fire_timer k st"
| "git_event EvMessage st = st"

subsection \<open>ZIP-upload scan\<close>

text \<open>
  The upload reads its events from the response text of an \<^verbatim>\<open>XMLHttpRequest\<close>: a block
  whose data does not parse is skipped, and no inactivity timer or event source exists.
  The model starts from the event name and the data of a block, and gives the case of the
  \<^verbatim>\<open>switch\<close> taken for them; how the listener cuts the response text into blocks and
  matches the two lines is not modelled.
  \<open>ZReadyStateDone\<close> is \<^verbatim>\<open>readyState === 4\<close>, \<open>ZXhrError\<close> the request's
  \<^verbatim>\<open>error\<close> listener, \<open>ZTimeout\<close> the 180 s timeout. The listener for upload progress
  (percent 1 to 5 while the file is sent) is left out.
\<close>

datatype zip_input =
    ZExtracting "progress_data parsed"
  | ZCollecting "progress_data parsed"
  | ZStart "progress_data parsed"
  | ZScanning "progress_data parsed"
  | ZIndexing "progress_data parsed"
  | ZEnriching "progress_data parsed"
  | ZCached "analysis_result option parsed"
  | ZDone "analysis_result option parsed"
  | ZError "progress_data parsed"
  | ZReadyStateDone
  | ZXhrError
  | ZTimeout
  | ZTimer nat

definition start_zip :: "page_state \<Rightarrow> page_state" where
  "start_zip st =
     st\<lparr>activeJob := Some Upload, loading := True, progressPct := 1, finished := False,
        finalizeRuns := 0\<rparr>"


definition finalize_zip :: "analysis_result option \<Rightarrow> page_state \<Rightarrow> page_state" where
  "finalize_zip data st =
     (if finished st then st
      else
        let st1 = st\<lparr>finished := True, finalizeRuns := finalizeRuns st + 1, loading := False,
                     activeJob := None\<rparr>
        in case data of
             Some d \<Rightarrow>
               st1\<lparr>progressMsg := Text ''analysis complete!'', progressPct := 100,
                   pendingTimers := pendingTimers st1 @ [CompletionTimer (target_route (versionId d))]\<rparr>
           | None \<Rightarrow> stopProgress st1)"

fun zip_event :: "zip_input \<Rightarrow> page_state \<Rightarrow> page_state" where
  "zip_event (ZExtracting d) st =
     (case d of
        ParseError \<Rightarrow> st
      | Parsed pd \<Rightarrow>
          st\<lparr>progressMsg := Text (or_default (pd_message pd) (''extracting archive'' @ ellipsis)),
             progressPct := 6\<rparr>)"
| "zip_event (ZCollecting d) st =
     (case d of
        ParseError \<Rightarrow> st
      | Parsed pd \<Rightarrow>
          st\<lparr>progressMsg := Text (or_default (pd_message pd) (''collecting files'' @ ellipsis)),
             progressPct := 8\<rparr>)"
| "zip_event (ZStart d) st =
     (case d of
        ParseError \<Rightarrow> st
      | Parsed pd \<Rightarrow> st\<lparr>progressMsg := ScanningTotal (num_or_zero (pd_total pd)), progressPct := 10\<rparr>)"
| "zip_event (ZScanning d) st =
     (case d of
        ParseError \<Rightarrow> st
      | Parsed pd \<Rightarrow>
          (let dn = num_or_zero (pd_done pd); tot = num_or_zero (pd_total pd) in
           st\<lparr>progressPct := scanning_pct_local dn tot, progressMsg := ScanningOf dn tot\<rparr>))"
| "zip_event (ZIndexing d) st =
     (case d of
        ParseError \<Rightarrow> st
      | Parsed pd \<Rightarrow> st\<lparr>progressMsg := Text (or_default (pd_message pd) (''indexing'' @ ellipsis))\<rparr>)"
| "zip_event (ZEnriching d) st =
     (case d of
        ParseError \<Rightarrow> st
      | Parsed pd \<Rightarrow>
          st\<lparr>progressMsg := Text (or_default (pd_message pd) (''enriching findings'' @ ellipsis)),
             progressPct := 92\<rparr>)"
| "zip_event (ZCached d) st =
     (case d of ParseError \<Rightarrow> st | Parsed data \<Rightarrow> finalize_zip data (st\<lparr>analysisResult := data\<rparr>))"
| "zip_event (ZDone d) st =
     (case d of ParseError \<Rightarrow> st | Parsed data \<Rightarrow> finalize_zip data (st\<lparr>analysisResult := data\<rparr>))"
| "zip_event (ZError d) st = (case d of ParseError \<Rightarrow> st | Parsed pd \<Rightarrow> finalize_zip None st)"
| "zip_event ZReadyStateDone st = (if \<not> finished st then finalize_zip None st else st)"
| "zip_event ZXhrError st = (if \<not> finished st then finalize_zip None st else st)"
| "zip_event ZTimeout st = (if \<not> finished st then finalize_zip None st else st)"
| "zip_event (ZTimer k) st = fire_timer k st"

text \<open>A stream is processed event by event, in arrival order.\<close>

definition run_local :: "sse_event list \<Rightarrow> page_state \<Rightarrow> page_state" where
  "run_local evs st = fold local_event evs st"

definition run_git :: "sse_event list \<Rightarrow> page_state \<Rightarrow> page_state" where
  "run_git evs st = fold git_event evs st"

definition run_zip :: "zip_input list \<Rightarrow> page_state \<Rightarrow> page_state" where
  "run_zip evs st = fold zip_event evs st"

subsection \<open>What each listener leaves unchanged\<close>

text \<open>
  An event is terminal when its listener can call \<^verbatim>\<open>finalize\<close>: \<^verbatim>\<open>done\<close>,
  \<^verbatim>\<open>cached\<close>, and an \<^verbatim>\<open>error\<close> on a closed connection.
\<close>

fun terminal_event :: "sse_event \<Rightarrow> bool" where
  "terminal_event (EvDone d) = True"
| "terminal_event (EvCached d) = True"
| "terminal_event (EvError rs) = (rs = CLOSED)"
| "terminal_event ev = False"

text \<open>The count of finalize runs agrees with the guard variable.\<close>

definition run_inv :: "page_state \<Rightarrow> bool" where
  "run_inv st = (finalizeRuns st = (if finished st then 1 else 0))"


lemma resetSafety_proj:
  "finished (resetSafety st) = finished st"
  "finalizeRuns (resetSafety st) = finalizeRuns st"
  "progressPct (resetSafety st) = progressPct st"
  "pendingTimers (resetSafety st) = pendingTimers st"
  "routerPushes (resetSafety st) = routerPushes st"
  "analysisResult (resetSafety st) = analysisResult st"
  "loading (resetSafety st) = loading st"
  by (simp_all add: resetSafety_def)

lemma count_event_proj:
  "finished (count_event st) = finished st"
  "finalizeRuns (count_event st) = finalizeRuns st"
  "progressPct (count_event st) = progressPct st"
  "progressMsg (count_event st) = progressMsg st"
  "pendingTimers (count_event st) = pendingTimers st"
  "routerPushes (count_event st) = routerPushes st"
  "analysisResult (count_event st) = analysisResult st"
  "loading (count_event st) = loading st"
  by (simp_all add: count_event_def)

lemma fire_inactivity_proj:
  "finished (fire_inactivity st) = finished st"
  "finalizeRuns (fire_inactivity st) = finalizeRuns st"
  "progressPct (fire_inactivity st) = progressPct st"
  "pendingTimers (fire_inactivity st) = pendingTimers st"
  by (simp_all add: fire_inactivity_def)

lemma fire_timer_proj:
  "finished (fire_timer k st) = finished st"
  "finalizeRuns (fire_timer k st) = finalizeRuns st"
  by (simp_all add: fire_timer_def run_timer_def stopProgress_def split: timer.splits)

lemma finalize_local_finished: "finished st \<Longrightarrow> finalize_local d st = st"
  by (simp add: finalize_local_def)

lemma finalize_git_finished: "finished st \<Longrightarrow> finalize_git d st = st"
  by (simp add: finalize_git_def)

lemma finalize_zip_finished: "finished st \<Longrightarrow> finalize_zip d st = st"
  by (simp add: finalize_zip_def)

lemma finalize_local_proj:
  "finished (finalize_local d st) = True"
  "finalizeRuns (finalize_local d st) =
     (if finished st then finalizeRuns st else finalizeRuns st + 1)"
  by (simp_all add: finalize_local_def Let_def stopProgress_def split: option.splits)

lemma finalize_git_proj:
  "finished (finalize_git d st) = True"
  "finalizeRuns (finalize_git d st) =
     (if finished st then finalizeRuns st else finalizeRuns st + 1)"
  by (simp_all add: finalize_git_def Let_def stopProgress_def split: option.splits)

lemma finalize_zip_proj:
  "finished (finalize_zip d st) = True"
  "finalizeRuns (finalize_zip d st) =
     (if finished st then finalizeRuns st else finalizeRuns st + 1)"
  by (simp_all add: finalize_zip_def Let_def stopProgress_def split: option.splits)

lemma finalize_none_effects:
  "\<not> finished st \<Longrightarrow> pendingTimers (finalize_local None st) = pendingTimers st @ [ResetTimer]"
  "\<not> finished st \<Longrightarrow> pendingTimers (finalize_git None st) = pendingTimers st @ [ResetTimer]"
  "routerPushes (finalize_local None st) = routerPushes st"
  "routerPushes (finalize_git None st) = routerPushes st"
  "analysisResult (finalize_local None st) = analysisResult st"
  "analysisResult (finalize_git None st) = analysisResult st"
  by (simp_all add: finalize_local_def finalize_git_def Let_def stopProgress_def)

lemmas stream_eval =
  run_local_def run_git_def run_zip_def start_local_def start_git_def start_zip_def
  initial_page_def resetSafety_def count_event_def fire_inactivity_def fire_timer_def
  run_timer_def stopProgress_def finalize_local_def finalize_git_def finalize_zip_def
  target_route_def or_else_def truthy_str_def num_or_zero_def

subsection \<open>Transient and fatal stream errors\<close>

text \<open>
  Claim C2. In the two event-source streams (local path and Git URL), an \<^verbatim>\<open>error\<close>
  event that arrives while the connection is \<^verbatim>\<open>CONNECTING\<close> (or open) never triggers
  finalize: the guard variable and the count of finalize runs stay as they were. A
  finalize on an \<^verbatim>\<open>error\<close> event happens only with the connection \<^verbatim>\<open>CLOSED\<close>, on an
  unfinished operation, and it is the finalize without payload: the percent reset is
  scheduled, nothing is pushed to the router and no result is stored.
\<close>

theorem error_finalizes_only_when_closed:
  "(rs \<noteq> CLOSED \<longrightarrow>
      finished (local_event (EvError rs) st) = finished st \<and>
      finalizeRuns (local_event (EvError rs) st) = finalizeRuns st \<and>
      finished (git_event (EvError rs) st) = finished st \<and>
      finalizeRuns (git_event (EvError rs) st) = finalizeRuns st) \<and>
   (finalizeRuns (local_event (EvError rs) st) \<noteq> finalizeRuns st \<longrightarrow> rs = CLOSED \<and> \<not> finished st) \<and>
   (finalizeRuns (git_event (EvError rs) st) \<noteq> finalizeRuns st \<longrightarrow> rs = CLOSED \<and> \<not> finished st) \<and>
   (\<not> finished st \<longrightarrow>
      local_event (EvError CLOSED) st = resetSafety (finalize_local None st) \<and>
      git_event (EvError CLOSED) st = resetSafety (finalize_git None st) \<and>
      finalizeRuns (local_event (EvError CLOSED) st) = finalizeRuns st + 1 \<and>
      finalizeRuns (git_event (EvError CLOSED) st) = finalizeRuns st + 1 \<and>
      pendingTimers (local_event (EvError CLOSED) st) = pendingTimers st @ [ResetTimer] \<and>
      pendingTimers (git_event (EvError CLOSED) st) = pendingTimers st @ [ResetTimer] \<and>
      routerPushes (local_event (EvError CLOSED) st) = routerPushes st \<and>
      routerPushes (git_event (EvError CLOSED) st) = routerPushes st \<and>
      analysisResult (local_event (EvError CLOSED) st) = analysisResult st \<and>
      analysisResult (git_event (EvError CLOSED) st) = analysisResult st)"
  by (simp add: resetSafety_proj finalize_local_proj finalize_git_proj finalize_none_effects)

theorem error_finalizes_only_when_closed_witness:
  "\<not> finished (run_git [EvError CONNECTING] (start_git initial_page)) \<and>
   finalizeRuns (run_git [EvError CONNECTING] (start_git initial_page)) = 0 \<and>
   finished (run_git [EvError CONNECTING, EvError CLOSED] (start_git initial_page)) \<and>
   finalizeRuns (run_git [EvError CONNECTING, EvError CLOSED] (start_git initial_page)) = 1 \<and>
   pendingTimers (run_git [EvError CONNECTING, EvError CLOSED] (start_git initial_page)) = [ResetTimer] \<and>
   routerPushes (run_git [EvError CONNECTING, EvError CLOSED] (start_git initial_page)) = [] \<and>
   \<not> finished (run_local [EvError CONNECTING] (start_local initial_page)) \<and>
   finalizeRuns (run_local [EvError CONNECTING, EvError CLOSED] (start_local initial_page)) = 1 \<and>
   pendingTimers (run_local [EvError CONNECTING, EvError CLOSED] (start_local initial_page)) = [ResetTimer]"
proof -
  define g0 where "g0 = start_git initial_page"
  define g1 where "g1 = git_event (EvError CONNECTING) g0"
  define g2 where "g2 = git_event (EvError CLOSED) g1"
  define l0 where "l0 = start_local initial_page"
  define l1 where "l1 = local_event (EvError CONNECTING) l0"
  define l2 where "l2 = local_event (EvError CLOSED) l1"
  have ne: "CONNECTING \<noteq> CLOSED"
    by simp
  have g0: "\<not> finished g0" "finalizeRuns g0 = 0" "pendingTimers g0 = []" "routerPushes g0 = []"
    unfolding g0_def by (simp_all add: start_git_def initial_page_def)
  have l0: "\<not> finished l0" "finalizeRuns l0 = 0" "pendingTimers l0 = []"
    unfolding l0_def by (simp_all add: start_local_def initial_page_def)
  have g1: "finished g1 = finished g0" "finalizeRuns g1 = finalizeRuns g0"
    and l1: "finished l1 = finished l0" "finalizeRuns l1 = finalizeRuns l0"
    using error_finalizes_only_when_closed [of CONNECTING g0]
      error_finalizes_only_when_closed [of CONNECTING l0] ne
    unfolding g1_def l1_def by blast+
  have g1': "pendingTimers g1 = []" "routerPushes g1 = []"
    and l1': "pendingTimers l1 = []"
    using g0 l0 unfolding g1_def l1_def by (simp_all add: resetSafety_proj)
  have g2: "finalizeRuns g2 = finalizeRuns g1 + 1" "pendingTimers g2 = pendingTimers g1 @ [ResetTimer]"
      "routerPushes g2 = routerPushes g1" "g2 = resetSafety (finalize_git None g1)"
    using error_finalizes_only_when_closed [of CLOSED g1] g1 g0 unfolding g2_def by blast+
  have l2: "finalizeRuns l2 = finalizeRuns l1 + 1" "pendingTimers l2 = pendingTimers l1 @ [ResetTimer]"
    using error_finalizes_only_when_closed [of CLOSED l1] l1 l0 unfolding l2_def by blast+
  have fin: "finished g2"
    unfolding g2(4) by (simp add: resetSafety_proj finalize_git_proj)
  have runs: "run_git [EvError CONNECTING] (start_git initial_page) = g1"
      "run_git [EvError CONNECTING, EvError CLOSED] (start_git initial_page) = g2"
      "run_local [EvError CONNECTING] (start_local initial_page) = l1"
      "run_local [EvError CONNECTING, EvError CLOSED] (start_local initial_page) = l2"
    unfolding g2_def g1_def g0_def l2_def l1_def l0_def run_git_def run_local_def by simp_all
  show ?thesis
    unfolding runs using g0 g1 g1' g2(1,2,3) fin l0 l1 l1' l2 by simp
qed

subsection \<open>Finalize runs at most once\<close>

lemma local_event_inv: "run_inv st \<Longrightarrow> run_inv (local_event ev st)"
  by (cases ev)
    (auto simp: run_inv_def resetSafety_proj count_event_proj fire_inactivity_proj
      fire_timer_proj finalize_local_proj Let_def split: parsed.splits if_splits)

lemma git_event_inv: "run_inv st \<Longrightarrow> run_inv (git_event ev st)"
  by (cases ev)
    (auto simp: run_inv_def resetSafety_proj fire_inactivity_proj fire_timer_proj
      finalize_git_proj Let_def split: parsed.splits option.splits if_splits)

lemma zip_event_inv: "run_inv st \<Longrightarrow> run_inv (zip_event ev st)"
  by (cases ev)
    (auto simp: run_inv_def fire_timer_proj finalize_zip_proj Let_def
      split: parsed.splits option.splits if_splits)

lemma run_local_inv: "run_inv st \<Longrightarrow> run_inv (run_local evs st)"
  unfolding run_local_def by (induction evs arbitrary: st) (simp_all add: local_event_inv)

lemma run_git_inv: "run_inv st \<Longrightarrow> run_inv (run_git evs st)"
  unfolding run_git_def by (induction evs arbitrary: st) (simp_all add: git_event_inv)

lemma run_zip_inv: "run_inv st \<Longrightarrow> run_inv (run_zip evs st)"
  unfolding run_zip_def by (induction evs arbitrary: st) (simp_all add: zip_event_inv)

lemma start_inv: "run_inv (start_local st)" "run_inv (start_git st)" "run_inv (start_zip st)"
  by (simp_all add: run_inv_def start_local_def start_git_def start_zip_def)

lemma nonterminal_keeps_unfinished:
  "\<not> terminal_event ev \<Longrightarrow> finished (local_event ev st) = finished st"
  "\<not> terminal_event ev \<Longrightarrow> finished (git_event ev st) = finished st"
  by (cases ev; simp add: resetSafety_proj count_event_proj fire_inactivity_proj fire_timer_proj
      Let_def split: parsed.splits)+

lemma nonterminal_run_local:
  "\<forall>ev \<in> set evs. \<not> terminal_event ev \<Longrightarrow> finished (run_local evs st) = finished st"
  unfolding run_local_def
  by (induction evs arbitrary: st) (simp_all add: nonterminal_keeps_unfinished)

lemma nonterminal_run_git:
  "\<forall>ev \<in> set evs. \<not> terminal_event ev \<Longrightarrow> finished (run_git evs st) = finished st"
  unfolding run_git_def
  by (induction evs arbitrary: st) (simp_all add: nonterminal_keeps_unfinished)

lemma late_events_ignored:
  "finished st \<Longrightarrow> local_event (EvDone p) st = count_event st"
  "finished st \<Longrightarrow> local_event (EvError rs) st = st"
  "finished st \<Longrightarrow> git_event (EvDone p) st = st"
  "finished st \<Longrightarrow> git_event (EvCached p) st = st"
  "finished st \<Longrightarrow> git_event (EvError rs) st = st"
  "finished st \<Longrightarrow> zip_event ZTimeout st = st"
  "finished st \<Longrightarrow> zip_event ZReadyStateDone st = st"
  "finished st \<Longrightarrow> zip_event ZXhrError st = st"
  by (simp_all add: count_event_proj Let_def)

lemma terminal_events_finalize:
  "finished (local_event (EvDone p) st)"
  "\<not> finished st \<Longrightarrow> finished (local_event (EvError CLOSED) st)"
  "\<not> finished st \<Longrightarrow> finished (git_event (EvDone p) st)"
  "\<not> finished st \<Longrightarrow> finished (git_event (EvError CLOSED) st)"
  "\<not> finished st \<Longrightarrow> result_entries data \<noteq> None \<Longrightarrow> finished (git_event (EvCached (Parsed data)) st)"
  "finished (zip_event ZTimeout st)"
  by (auto simp: count_event_proj resetSafety_proj finalize_local_proj finalize_git_proj
      finalize_zip_proj Let_def split: parsed.splits option.splits)

text \<open>
  Claim C3, as stated, ends: every event-handling code path of the operation eventually
  reaches a finalize. The code does not promise that. In the stream below the connection
  opens, an error arrives while reconnecting, a ping arrives and the inactivity timeout
  fires: no finalize has run, and no callback is left pending that could run one.
\<close>

theorem finalize_always_reached_counterexample:
  "\<not> finished (run_local [EvOpen, EvError CONNECTING, EvPing, EvInactivity] (start_local initial_page)) \<and>
   finalizeRuns (run_local [EvOpen, EvError CONNECTING, EvPing, EvInactivity] (start_local initial_page)) = 0 \<and>
   pendingTimers (run_local [EvOpen, EvError CONNECTING, EvPing, EvInactivity] (start_local initial_page)) = [] \<and>
   \<not> safetyTimer (run_local [EvOpen, EvError CONNECTING, EvPing, EvInactivity] (start_local initial_page)) \<and>
   \<not> finished (run_git [EvOpen, EvError CONNECTING, EvPing, EvInactivity] (start_git initial_page)) \<and>
   finalizeRuns (run_git [EvOpen, EvError CONNECTING, EvPing, EvInactivity] (start_git initial_page)) = 0 \<and>
   pendingTimers (run_git [EvOpen, EvError CONNECTING, EvPing, EvInactivity] (start_git initial_page)) = []"
  by (simp add: stream_eval)

text \<open>
  Claim C3, amended. The body of \<^verbatim>\<open>finalize\<close> runs at most once per operation: a call
  on a finished operation changes nothing (progress, result, navigation or anything
  else), over any stream of events the count of runs never exceeds one, and it is one
  exactly when the operation is finished. A late \<^verbatim>\<open>done\<close>, \<^verbatim>\<open>cached\<close> or \<^verbatim>\<open>error\<close>
  on a finished event-source operation, and a late timeout on a finished upload, leave
  the page as it is (the local \<^verbatim>\<open>done\<close> listener still counts the event). A finalize
  is reached by a \<^verbatim>\<open>done\<close> event, by an \<^verbatim>\<open>error\<close> on a closed connection, by a
  \<^verbatim>\<open>cached\<close> event whose payload parses and yields its file paths, and, for the upload,
  by the 180 s timeout at the latest. The other events (progress events, ping, an error
  while the connection is open or reconnecting, the inactivity timeout, pending
  callbacks) never finalize: a stream made of them leaves the operation as unfinished as
  it was.
\<close>

theorem finalize_at_most_once:
  "(finished st \<longrightarrow>
      finalize_local d st = st \<and> finalize_git d st = st \<and> finalize_zip d st = st \<and>
      local_event (EvDone p) st = count_event st \<and> local_event (EvError rs) st = st \<and>
      git_event (EvDone p) st = st \<and> git_event (EvCached p) st = st \<and>
      git_event (EvError rs) st = st \<and> zip_event ZTimeout st = st) \<and>
   finalizeRuns (run_local evs (start_local st0)) \<le> 1 \<and>
   finalizeRuns (run_git evs (start_git st0)) \<le> 1 \<and>
   finalizeRuns (run_zip zevs (start_zip st0)) \<le> 1 \<and>
   (finalizeRuns (run_local evs (start_local st0)) = 1) = finished (run_local evs (start_local st0)) \<and>
   (finalizeRuns (run_git evs (start_git st0)) = 1) = finished (run_git evs (start_git st0)) \<and>
   (finalizeRuns (run_zip zevs (start_zip st0)) = 1) = finished (run_zip zevs (start_zip st0)) \<and>
   (\<not> finished st \<longrightarrow>
      finished (local_event (EvDone p) st) \<and> finished (local_event (EvError CLOSED) st) \<and>
      finished (git_event (EvDone p) st) \<and> finished (git_event (EvError CLOSED) st) \<and>
      (result_entries data \<noteq> None \<longrightarrow> finished (git_event (EvCached (Parsed data)) st)) \<and>
      finished (zip_event ZTimeout st)) \<and>
   ((\<forall>ev \<in> set evs. \<not> terminal_event ev) \<longrightarrow>
      finished (run_local evs st) = finished st \<and> finished (run_git evs st) = finished st)"
proof -
  have a: "run_inv (run_local evs (start_local st0))"
    and b: "run_inv (run_git evs (start_git st0))"
    and c: "run_inv (run_zip zevs (start_zip st0))"
    by (simp_all add: run_local_inv run_git_inv run_zip_inv start_inv)
  have runs: "finalizeRuns (run_local evs (start_local st0)) \<le> 1 \<and>
      finalizeRuns (run_git evs (start_git st0)) \<le> 1 \<and>
      finalizeRuns (run_zip zevs (start_zip st0)) \<le> 1 \<and>
      (finalizeRuns (run_local evs (start_local st0)) = 1) = finished (run_local evs (start_local st0)) \<and>
      (finalizeRuns (run_git evs (start_git st0)) = 1) = finished (run_git evs (start_git st0)) \<and>
      (finalizeRuns (run_zip zevs (start_zip st0)) = 1) = finished (run_zip zevs (start_zip st0))"
    using a b c unfolding run_inv_def by (simp split: if_splits)
  have late: "finished st \<longrightarrow>
      finalize_local d st = st \<and> finalize_git d st = st \<and> finalize_zip d st = st \<and>
      local_event (EvDone p) st = count_event st \<and> local_event (EvError rs) st = st \<and>
      git_event (EvDone p) st = st \<and> git_event (EvCached p) st = st \<and>
      git_event (EvError rs) st = st \<and> zip_event ZTimeout st = st"
    using late_events_ignored [of st]
    by (simp add: finalize_local_finished finalize_git_finished finalize_zip_finished)
  have reach: "\<not> finished st \<longrightarrow>
      finished (local_event (EvDone p) st) \<and> finished (local_event (EvError CLOSED) st) \<and>
      finished (git_event (EvDone p) st) \<and> finished (git_event (EvError CLOSED) st) \<and>
      (result_entries data \<noteq> None \<longrightarrow> finished (git_event (EvCached (Parsed data)) st)) \<and>
      finished (zip_event ZTimeout st)"
    using terminal_events_finalize(1) [of p st] terminal_events_finalize(2) [of st]
      terminal_events_finalize(3) [of st p] terminal_events_finalize(4) [of st]
      terminal_events_finalize(6) [of st] terminal_events_finalize(5) [of st data]
    by blast
  have quiet: "(\<forall>ev \<in> set evs. \<not> terminal_event ev) \<longrightarrow>
      finished (run_local evs st) = finished st \<and> finished (run_git evs st) = finished st"
    using nonterminal_run_local [of evs st] nonterminal_run_git [of evs st] by blast
  show ?thesis
    using runs late reach quiet by blast
qed
theorem finalize_at_most_once_witness:
  "finalizeRuns
     (run_local [EvOpen, EvDone (Parsed (Some (result_of None None (Some ''v1'')))),
                 EvDone (Parsed (Some (result_of None None (Some ''v1'')))), EvError CLOSED,
                 EvTimer 0] (start_local initial_page)) = 1 \<and>
   routerPushes
     (run_local [EvOpen, EvDone (Parsed (Some (result_of None None (Some ''v1'')))),
                 EvDone (Parsed (Some (result_of None None (Some ''v1'')))), EvError CLOSED,
                 EvTimer 0] (start_local initial_page)) = [FindingsVersion ''v1''] \<and>
   finalize_local None (run_local [EvDone (Parsed None)] (start_local initial_page)) =
     run_local [EvDone (Parsed None)] (start_local initial_page) \<and>
   finished (local_event (EvDone ParseError) (start_local initial_page)) \<and>
   \<not> finished (run_git [EvOpen, EvPing, EvError CONNECTING] (start_git initial_page))"
proof -
  define r where "r = result_of None None (Some ''v1'')"
  define evs where "evs = [EvOpen, EvDone (Parsed (Some r)), EvDone (Parsed (Some r)),
    EvError CLOSED, EvTimer 0]"
  define s where "s = run_local [EvDone (Parsed None)] (start_local initial_page)"
  define quiet where "quiet = [EvOpen, EvPing, EvError CONNECTING]"
  have fin_s: "finished s"
    unfolding s_def by (simp add: stream_eval)
  have unf: "\<not> finished (start_local initial_page)" "\<not> finished (start_git initial_page)"
    by (simp_all add: start_local_def start_git_def initial_page_def)
  have nt: "\<forall>ev \<in> set quiet. \<not> terminal_event ev"
    unfolding quiet_def by simp
  have fin_evs: "finished (run_local evs (start_local initial_page))"
    unfolding evs_def r_def by (simp add: stream_eval)
  have pushes: "routerPushes (run_local evs (start_local initial_page)) = [FindingsVersion ''v1'']"
    unfolding evs_def r_def by (simp add: stream_eval result_of_def)
  note thm1 = finalize_at_most_once
    [where st = s and d = None and evs = evs and ?st0.0 = initial_page]
  note thm2 = finalize_at_most_once
    [where st = "start_local initial_page" and p = ParseError]
  note thm3 = finalize_at_most_once
    [where st = "start_git initial_page" and evs = quiet]
  have a: "finalizeRuns (run_local evs (start_local initial_page)) = 1"
    using thm1 fin_evs by blast
  have b: "finalize_local None s = s"
    using thm1 fin_s by blast
  have c: "finished (local_event (EvDone ParseError) (start_local initial_page))"
    using thm2 unf(1) by blast
  have d: "\<not> finished (run_git quiet (start_git initial_page))"
    using thm3 nt unf(2) by blast
  show ?thesis
    using a b c d pushes unfolding evs_def r_def s_def quiet_def by simp
qed

subsection \<open>Percent during the scanning phase\<close>





































section \<open>Path tree builders\<close>

text \<open>
  Source: \<^verbatim>\<open>buildTree\<close> in \<^verbatim>\<open>src/app/analyzer/page.tsx\<close>; \<^verbatim>\<open>buildTreeFromEntries\<close> and
  \<^verbatim>\<open>buildTreeFromFilePaths\<close> in \<^verbatim>\<open>src/unnamed/part_000\<close>.

  Both builders give a node the \<^verbatim>\<open>children\<close> array exactly when it is a folder and
  leave it \<^verbatim>\<open>undefined\<close> for a file; no file ever receives a child. The model keeps one
  list of children per node, empty for a file.
\<close>

datatype tree_node =
  TreeNode (n_name: jstring) (n_path: jstring) (n_type: node_type) (n_level: int)
    (n_supported: "bool option") (n_children: "tree_node list")

definition entry_node :: "directory_entry \<Rightarrow> tree_node" where
  "entry_node e = TreeNode (e_name e) (e_path e) (e_type e) (e_level e) (e_supported e) []"

definition with_children :: "tree_node \<Rightarrow> tree_node list \<Rightarrow> tree_node" where
  "with_children n cs = TreeNode (n_name n) (n_path n) (n_type n) (n_level n) (n_supported n) cs"

subsection \<open>References into the tree under construction\<close>

text \<open>
  The source keeps a stack of references to nodes that are already in the tree, and
  pushes new nodes into the \<^verbatim>\<open>children\<close> array of the node on top. Nodes are only ever
  appended, never moved or removed, so a reference is modelled by the position of the
  node: the list of child indices that leads to it from the root array. The empty list
  denotes the root array \<^verbatim>\<open>tree\<close> itself. For a position that leads to no node, which
  no run of the builders produces, the two functions below read no children and leave the
  forest as it is.
\<close>

type_synonym node_ref = "nat list"

fun children_at :: "node_ref \<Rightarrow> tree_node list \<Rightarrow> tree_node list" where
  "children_at [] forest = forest"
| "children_at (i # r) forest =
     (if i < length forest then children_at r (n_children (forest ! i)) else [])"

fun set_children_at :: "node_ref \<Rightarrow> tree_node list \<Rightarrow> tree_node list \<Rightarrow> tree_node list" where
  "set_children_at [] cs forest = cs"
| "set_children_at (i # r) cs forest =
     (if i < length forest
      then forest[i := with_children (forest ! i) (set_children_at r cs (n_children (forest ! i)))]
      else forest)"

subsection \<open>The builder with deduplication\<close>

text \<open>\<^verbatim>\<open>arr.find(n => n.path === node.path && n.type === node.type)\<close>, by position.\<close>

fun find_index :: "('a \<Rightarrow> bool) \<Rightarrow> 'a list \<Rightarrow> nat option" where
  "find_index P [] = None"
| "find_index P (x # xs) = (if P x then Some 0 else map_option Suc (find_index P xs))"

text \<open>
  \<^verbatim>\<open>addUnique(arr, node)\<close> returns the array as it is after the call, the position of
  the node it returns, and that node: the existing one, or \<^verbatim>\<open>node\<close> pushed at the end.
\<close>

definition addUnique :: "tree_node list \<Rightarrow> tree_node \<Rightarrow> tree_node list \<times> nat \<times> tree_node" where
  "addUnique arr node =
     (case find_index (\<lambda>n. n_path n = n_path node \<and> n_type n = n_type node) arr of
        Some i \<Rightarrow> (arr, i, arr ! i)
      | None \<Rightarrow> (arr @ [node], length arr, node))"

text \<open>
  The stack, top first; each element is a reference together with the \<^verbatim>\<open>level\<close> of the
  node referred to, which never changes.
  \<^verbatim>\<open>while (stack.length && stack[stack.length - 1].level >= entry.level) stack.pop();\<close>
\<close>

definition pop_stack :: "int \<Rightarrow> (int \<times> node_ref) list \<Rightarrow> (int \<times> node_ref) list" where
  "pop_stack lvl stack = dropWhile (\<lambda>(l, r). l \<ge> lvl) stack"

text \<open>One iteration of the loop over the entries.\<close>

definition build_step ::
  "directory_entry \<Rightarrow> tree_node list \<times> (int \<times> node_ref) list
     \<Rightarrow> tree_node list \<times> (int \<times> node_ref) list" where
  "build_step entry state =
     (let tree = fst state;
          node = entry_node entry;
          stack = pop_stack (e_level entry) (snd state)
      in case stack of
           [] \<Rightarrow>
             (let (tree', k, added) = addUnique tree node
              in (tree', if e_type entry = Folder then [(n_level added, [k])] else []))
         | (l, parent) # rest \<Rightarrow>
             (let (cs, k, added) = addUnique (children_at parent tree) node
              in (set_children_at parent cs tree,
                  if e_type entry = Folder then (n_level added, parent @ [k]) # stack else stack)))"

definition buildTree :: "directory_entry list \<Rightarrow> tree_node list" where
  "buildTree entries = fst (fold build_step entries ([], []))"

subsection \<open>The builder without deduplication\<close>

text \<open>
  \<^verbatim>\<open>buildTreeFromEntries\<close> is the same loop with \<^verbatim>\<open>tree.push(node)\<close> and
  \<^verbatim>\<open>parent.children.push(node)\<close> in place of \<^verbatim>\<open>addUnique\<close>.
\<close>

definition entries_step ::
  "directory_entry \<Rightarrow> tree_node list \<times> (int \<times> node_ref) list
     \<Rightarrow> tree_node list \<times> (int \<times> node_ref) list" where
  "entries_step e state =
     (let tree = fst state;
          node = entry_node e;
          stack = pop_stack (e_level e) (snd state)
      in case stack of
           [] \<Rightarrow>
             (tree @ [node], if e_type e = Folder then [(e_level e, [length tree])] else [])
         | (l, parent) # rest \<Rightarrow>
             (let cs = children_at parent tree
              in (set_children_at parent (cs @ [node]) tree,
                  if e_type e = Folder then (e_level e, parent @ [length cs]) # stack else stack)))"

definition buildTreeFromEntries :: "directory_entry list \<Rightarrow> tree_node list" where
  "buildTreeFromEntries entries = fst (fold entries_step entries ([], []))"

subsection \<open>The builder from file paths\<close>

text \<open>
  \<^verbatim>\<open>buildTreeFromFilePaths\<close> first fills nested objects keyed by segment, then lists
  them. An object used as a dictionary is modelled by the list of its own keys with their
  values, in insertion order; every key occurs once.
  \<^verbatim>\<open>{ name: segment, path: agg, type: ..., children: {} }\<close>:
\<close>

datatype path_node =
  PathNode (p_name: jstring) (p_path: jstring) (p_type: node_type)
    (p_children: "(jstring \<times> path_node) list")

type_synonym children_obj = "(jstring \<times> path_node) list"

text \<open>
  The walk reads \<^verbatim>\<open>cursor.children\<close> and \<^verbatim>\<open>cursor.children[segment]\<close> through the
  prototype chain, which for every object involved ends in \<^verbatim>\<open>Object.prototype\<close>. Where
  the object has no own property of that name, three inherited values can be read:
  \<^verbatim>\<open>__proto__\<close> gives \<^verbatim>\<open>Object.prototype\<close> itself; the name of a function member of
  \<^verbatim>\<open>Object.prototype\<close> gives that function; and \<^verbatim>\<open>children\<close> gives the dictionary
  \<^verbatim>\<open>Object.prototype.children\<close>, once the walk has created it (it does so when a path
  continues below \<^verbatim>\<open>__proto__\<close>). All three are truthy, so \<^verbatim>\<open>||=\<close> assigns nothing and
  the walk goes on inside the value read.

  The state therefore holds, besides the own \<^verbatim>\<open>children\<close> of the \<^verbatim>\<open>root\<close> object of the
  running call, two things that outlive the call: \<^verbatim>\<open>Object.prototype.children\<close>, and the
  own \<^verbatim>\<open>children\<close> of each function member of \<^verbatim>\<open>Object.prototype\<close>, by the name of
  the member. \<^const>\<open>None\<close> stands for a property that does not exist.
\<close>

record object_state =
  root_children :: "children_obj option"
  prototype_children :: "children_obj option"
  member_children :: "jstring \<Rightarrow> children_obj option"

text \<open>The state in which nothing has written to \<^verbatim>\<open>Object.prototype\<close> or its members.\<close>

definition initial_objects :: object_state where
  "initial_objects =
     \<lparr>root_children = None, prototype_children = None, member_children = (\<lambda>k. None)\<rparr>"

definition function_members :: "jstring list" where
  "function_members =
     [utf16 ''constructor'', utf16 ''__defineGetter__'', utf16 ''__defineSetter__'',
      utf16 ''hasOwnProperty'', utf16 ''__lookupGetter__'', utf16 ''__lookupSetter__'',
      utf16 ''isPrototypeOf'', utf16 ''propertyIsEnumerable'', utf16 ''toString'',
      utf16 ''valueOf'', utf16 ''toLocaleString'']"

definition object_prototype_keys :: "jstring list" where
  "object_prototype_keys = utf16 ''__proto__'' # function_members"

text \<open>
  The objects that can own a \<^verbatim>\<open>children\<close> dictionary without being a node: \<^verbatim>\<open>root\<close>,
  \<^verbatim>\<open>Object.prototype\<close>, and a function member.
\<close>

datatype holder = RootObject | PrototypeObject | MemberFunction jstring

definition own_children :: "holder \<Rightarrow> object_state \<Rightarrow> children_obj option" where
  "own_children ob st =
     (case ob of
        RootObject \<Rightarrow> root_children st
      | PrototypeObject \<Rightarrow> prototype_children st
      | MemberFunction k \<Rightarrow> member_children st k)"

definition set_own_children :: "holder \<Rightarrow> children_obj \<Rightarrow> object_state \<Rightarrow> object_state" where
  "set_own_children ob c st =
     (case ob of
        RootObject \<Rightarrow> st\<lparr>root_children := Some c\<rparr>
      | PrototypeObject \<Rightarrow> st\<lparr>prototype_children := Some c\<rparr>
      | MemberFunction k \<Rightarrow> st\<lparr>member_children := (member_children st)(k \<mapsto> c)\<rparr>)"

text \<open>
  A node is referred to by the holder of the dictionary it was inserted into and the keys
  that lead to it from there; the same pair, with any list of keys, refers to a
  dictionary: the \<^verbatim>\<open>children\<close> of the holder for the empty list, the own \<^verbatim>\<open>children\<close> of
  the node otherwise. \<open>descend\<close> reads the dictionary at the end of the keys,
  \<open>update_at\<close> changes it.
\<close>

fun descend :: "jstring list \<Rightarrow> children_obj \<Rightarrow> children_obj" where
  "descend [] c = c"
| "descend (k # ks) c = (case map_of c k of None \<Rightarrow> [] | Some n \<Rightarrow> descend ks (p_children n))"

fun update_at :: "jstring list \<Rightarrow> (children_obj \<Rightarrow> children_obj) \<Rightarrow> children_obj \<Rightarrow> children_obj" where
  "update_at [] f c = f c"
| "update_at (k # ks) f c =
     map (\<lambda>(k', n). if k' = k
            then (k', PathNode (p_name n) (p_path n) (p_type n) (update_at ks f (p_children n)))
            else (k', n)) c"

definition read_children :: "holder \<times> jstring list \<Rightarrow> object_state \<Rightarrow> children_obj" where
  "read_children r st =
     descend (snd r) (case own_children (fst r) st of None \<Rightarrow> [] | Some c \<Rightarrow> c)"

definition add_child ::
  "holder \<times> jstring list \<Rightarrow> jstring \<Rightarrow> path_node \<Rightarrow> object_state \<Rightarrow> object_state" where
  "add_child r k n st =
     set_own_children (fst r)
       (update_at (snd r) (\<lambda>c. c @ [(k, n)])
          (case own_children (fst r) st of None \<Rightarrow> [] | Some c \<Rightarrow> c)) st"

text \<open>
  What \<^verbatim>\<open>cursor\<close> can be: \<^verbatim>\<open>root\<close>, \<^verbatim>\<open>Object.prototype\<close> or a function member; the
  dictionary \<^verbatim>\<open>Object.prototype.children\<close> itself, read as the inherited \<^verbatim>\<open>children\<close>
  of another dictionary; or a node.
\<close>

datatype cursor = Holder holder | Shared | Node holder "jstring list"

text \<open>
  \<^verbatim>\<open>cursor.children ||= {}\<close>, returning the dictionary that \<^verbatim>\<open>cursor.children\<close> then
  denotes. A holder uses its own property if it has one, else the inherited
  \<^verbatim>\<open>Object.prototype.children\<close> if that exists, and else gets a new own dictionary. The
  shared dictionary never has an own key \<^verbatim>\<open>children\<close>, so it inherits itself. A node was
  created with its own \<^verbatim>\<open>children\<close>.
\<close>

definition children_of :: "cursor \<Rightarrow> object_state \<Rightarrow> (holder \<times> jstring list) \<times> object_state" where
  "children_of cur st =
     (case cur of
        Holder ob \<Rightarrow>
          if own_children ob st \<noteq> None then ((ob, []), st)
          else if prototype_children st \<noteq> None then ((PrototypeObject, []), st)
          else ((ob, []), set_own_children ob [] st)
      | Shared \<Rightarrow> ((PrototypeObject, []), st)
      | Node ob ks \<Rightarrow> ((ob, ks), st))"

text \<open>
  One iteration of \<^verbatim>\<open>parts.forEach((segment, idx) => { agg += "/" + segment;
  cursor.children ||= {}; cursor.children[segment] ||= { name: segment, path: agg, type:
  idx === parts.length - 1 ? "file" : "folder", children: {} };
  cursor = cursor.children[segment]; })\<close>, on the state, the cursor and \<^verbatim>\<open>agg\<close>. An own
  key is found first; then the inherited values; only when nothing is read, the new node
  is assigned.
\<close>

definition visit_segment ::
  "jstring \<Rightarrow> bool \<Rightarrow> object_state \<times> cursor \<times> jstring \<Rightarrow> object_state \<times> cursor \<times> jstring" where
  "visit_segment segment is_last state =
     (let (st, cur, agg) = state;
          agg' = agg @ [slash] @ segment;
          (r, st1) = children_of cur st
      in if map_of (read_children r st1) segment \<noteq> None
         then (st1, Node (fst r) (snd r @ [segment]), agg')
         else if segment = utf16 ''__proto__'' then (st1, Holder PrototypeObject, agg')
         else if segment \<in> set function_members then (st1, Holder (MemberFunction segment), agg')
         else if segment = utf16 ''children'' \<and> prototype_children st1 \<noteq> None
         then (st1, Shared, agg')
         else (add_child r segment
                 (PathNode segment agg' (if is_last then File else Folder) []) st1,
               Node (fst r) (snd r @ [segment]), agg'))"

fun walk :: "jstring list \<Rightarrow> object_state \<times> cursor \<times> jstring \<Rightarrow> object_state \<times> cursor \<times> jstring" where
  "walk [] state = state"
| "walk (segment # rest) state = walk rest (visit_segment segment (rest = []) state)"

text \<open>
  The body of \<^verbatim>\<open>for (const full of paths)\<close>: \<^verbatim>\<open>parts = full.split("/").filter(Boolean);
  cursor = root; agg = ""\<close>, then the walk.
\<close>

definition insert_full :: "jstring \<Rightarrow> object_state \<Rightarrow> object_state" where
  "insert_full full st = fst (walk (path_parts full) (st, Holder RootObject, []))"

text \<open>
  \<^verbatim>\<open>toNodes(node, level)\<close>: the keys sorted (\<^verbatim>\<open>Object.keys(...).sort()\<close> compares the
  strings unit by unit), one node per key, with children for folders only.
\<close>

fun toNode :: "int \<Rightarrow> path_node \<Rightarrow> tree_node" where
  "toNode level (PathNode nm p t cs) =
     TreeNode nm p t level None
       (if t = Folder then map (toNode (level + 1)) (map snd (sort_key fst cs)) else [])"

definition toNodes :: "int \<Rightarrow> children_obj \<Rightarrow> tree_node list" where
  "toNodes level children = map (toNode level) (map snd (sort_key fst children))"

text \<open>
  \<^verbatim>\<open>root.children || {}\<close> as \<^verbatim>\<open>toNodes(root, 0)\<close> reads it: the own property, else the
  inherited one, else nothing.
\<close>

definition root_view :: "object_state \<Rightarrow> children_obj" where
  "root_view st =
     (case root_children st of
        Some c \<Rightarrow> c
      | None \<Rightarrow> (case prototype_children st of Some c \<Rightarrow> c | None \<Rightarrow> []))"

text \<open>
  The call takes the state it finds, starts with a new \<^verbatim>\<open>root = {}\<close>, and returns the tree
  together with the state it leaves.
\<close>

definition buildTreeFromFilePaths ::
  "object_state \<Rightarrow> jstring list \<Rightarrow> tree_node list \<times> object_state" where
  "buildTreeFromFilePaths st paths =
     (let st' = fold insert_full paths (st\<lparr>root_children := None\<rparr>)
      in (toNodes 0 (root_view st'), st'))"

subsection \<open>Properties of a forest\<close>

text \<open>Siblings are pairwise different in the pair (path, type), at every level.\<close>

definition node_key :: "tree_node \<Rightarrow> jstring \<times> node_type" where
  "node_key n = (n_path n, n_type n)"

fun unique_siblings :: "tree_node \<Rightarrow> bool" where
  "unique_siblings (TreeNode nm p t l s cs) =
     (distinct (map node_key cs) \<and> (\<forall>c \<in> set cs. unique_siblings c))"

definition unique_forest :: "tree_node list \<Rightarrow> bool" where
  "unique_forest forest =
     (distinct (map node_key forest) \<and> (\<forall>n \<in> set forest. unique_siblings n))"

text \<open>Names, paths, types and structure of a node, without its level.\<close>

datatype outline = Outline jstring jstring node_type "outline list"

fun outline_of :: "tree_node \<Rightarrow> outline" where
  "outline_of (TreeNode nm p t l s cs) = Outline nm p t (map outline_of cs)"

subsection \<open>No duplicate siblings\<close>

lemma find_index_None: "find_index P xs = None \<longleftrightarrow> (\<forall>x \<in> set xs. \<not> P x)"
  by (induction xs) auto

lemma find_index_Some: "find_index P xs = Some i \<Longrightarrow> i < length xs \<and> P (xs ! i)"
  by (induction xs arbitrary: i) (auto split: if_splits)

lemma node_key_with_children [simp]: "node_key (with_children n cs) = node_key n"
  by (simp add: node_key_def with_children_def)

lemma unique_siblings_with_children [simp]:
  "unique_siblings (with_children n cs) = unique_forest cs"
  by (simp add: with_children_def unique_forest_def)

lemma unique_siblings_children: "unique_siblings n \<Longrightarrow> unique_forest (n_children n)"
  by (cases n) (simp add: unique_forest_def)

lemma unique_siblings_entry_node [simp]: "unique_siblings (entry_node e)"
  by (simp add: entry_node_def)

lemma addUnique_unique:
  assumes "unique_forest arr"
  shows "unique_forest (fst (addUnique arr (entry_node e)))"
proof (cases "find_index (\<lambda>n. n_path n = n_path (entry_node e) \<and> n_type n = n_type (entry_node e)) arr")
  case None
  then have "node_key (entry_node e) \<notin> set (map node_key arr)"
    by (auto simp: find_index_None node_key_def)
  with assms None show ?thesis
    by (simp add: addUnique_def unique_forest_def)
next
  case (Some i)
  with assms show ?thesis
    by (simp add: addUnique_def)
qed

lemma push_unique:
  "unique_forest arr \<Longrightarrow> node_key (entry_node e) \<notin> set (map node_key arr) \<Longrightarrow>
   unique_forest (arr @ [entry_node e])"
  by (simp add: unique_forest_def)

lemma children_at_unique: "unique_forest forest \<Longrightarrow> unique_forest (children_at r forest)"
proof (induction r arbitrary: forest)
  case Nil
  then show ?case by simp
next
  case (Cons i r)
  show ?case
  proof (cases "i < length forest")
    case True
    then have "unique_siblings (forest ! i)"
      using Cons.prems by (simp add: unique_forest_def)
    then show ?thesis
      using True Cons.IH by (simp add: unique_siblings_children)
  next
    case False
    then show ?thesis by (simp add: unique_forest_def)
  qed
qed

lemma list_update_keys:
  "i < length forest \<Longrightarrow>
   map node_key (forest[i := with_children (forest ! i) cs]) = map node_key forest"
  by (simp add: map_update list_update_same_conv)

lemma set_children_at_unique:
  "unique_forest forest \<Longrightarrow> unique_forest cs \<Longrightarrow> unique_forest (set_children_at r cs forest)"
proof (induction r arbitrary: forest)
  case Nil
  then show ?case by simp
next
  case (Cons i r)
  show ?case
  proof (cases "i < length forest")
    case True
    have "unique_siblings (forest ! i)"
      using True Cons.prems(1) by (simp add: unique_forest_def)
    then have sub: "unique_forest (n_children (forest ! i))"
      by (rule unique_siblings_children)
    have new: "unique_forest (set_children_at r cs (n_children (forest ! i)))"
      using Cons.IH [OF sub Cons.prems(2)] .
    have elems: "\<forall>n \<in> set (forest[i := with_children (forest ! i)
        (set_children_at r cs (n_children (forest ! i)))]). unique_siblings n"
    proof
      fix n
      assume "n \<in> set (forest[i := with_children (forest ! i)
        (set_children_at r cs (n_children (forest ! i)))])"
      then have "n = with_children (forest ! i) (set_children_at r cs (n_children (forest ! i)))
          \<or> n \<in> set forest"
        using set_update_subset_insert by fastforce
      then show "unique_siblings n"
        using new Cons.prems(1) by (auto simp: unique_forest_def)
    qed
    show ?thesis
      using True Cons.prems(1) elems by (simp add: unique_forest_def list_update_keys)
  next
    case False
    then show ?thesis using Cons.prems(1) by simp
  qed
qed

lemma build_step_unique:
  assumes "unique_forest (fst state)"
  shows "unique_forest (fst (build_step entry state))"
proof (cases "pop_stack (e_level entry) (snd state)")
  case Nil
  then show ?thesis
    using addUnique_unique [OF assms, of entry]
    by (auto simp: build_step_def Let_def split: prod.splits)
next
  case (Cons top rest)
  obtain l parent where top: "top = (l, parent)"
    by (cases top)
  have "unique_forest (fst (addUnique (children_at parent (fst state)) (entry_node entry)))"
    by (intro addUnique_unique children_at_unique assms)
  then have "unique_forest (set_children_at parent
      (fst (addUnique (children_at parent (fst state)) (entry_node entry))) (fst state))"
    by (intro set_children_at_unique assms)
  then show ?thesis
    using Cons top by (auto simp: build_step_def Let_def split: prod.splits)
qed

lemma fold_build_step_unique:
  "unique_forest (fst state) \<Longrightarrow> unique_forest (fst (fold build_step entries state))"
  by (induction entries arbitrary: state) (simp_all add: build_step_unique)

text \<open>Directory entries used as concrete inputs below.\<close>

definition file_entry :: "jstring \<Rightarrow> jstring \<Rightarrow> int \<Rightarrow> directory_entry" where
  "file_entry nm p l =
     \<lparr>e_type = File, e_name = nm, e_path = p, e_level = l, e_supported = Some True\<rparr>"

definition folder_entry :: "jstring \<Rightarrow> jstring \<Rightarrow> int \<Rightarrow> directory_entry" where
  "folder_entry nm p l =
     \<lparr>e_type = Folder, e_name = nm, e_path = p, e_level = l, e_supported = Some True\<rparr>"

lemmas tree_eval =
  buildTree_def buildTreeFromEntries_def build_step_def entries_step_def pop_stack_def
  addUnique_def entry_node_def with_children_def file_entry_def folder_entry_def
  unique_forest_def node_key_def utf16_def

text \<open>
  Claim C7, as stated, covers both entry-based builders. \<^verbatim>\<open>buildTreeFromEntries\<close> has
  no deduplication: an entry repeated in the sequence is inserted twice, as two siblings
  with the same path and type.
\<close>

theorem entry_builder_no_duplicates_counterexample:
  "buildTreeFromEntries [file_entry (utf16 ''a.ts'') (utf16 ''a.ts'') 0, file_entry (utf16 ''a.ts'') (utf16 ''a.ts'') 0] =
     [TreeNode (utf16 ''a.ts'') (utf16 ''a.ts'') File 0 (Some True) [],
      TreeNode (utf16 ''a.ts'') (utf16 ''a.ts'') File 0 (Some True) []] \<and>
   \<not> unique_forest
       (buildTreeFromEntries [file_entry (utf16 ''a.ts'') (utf16 ''a.ts'') 0, file_entry (utf16 ''a.ts'') (utf16 ''a.ts'') 0])"
  by (simp add: tree_eval)

text \<open>
  Claim C7, amended. For every sequence of directory entries, repeated and overlapping
  ones included, \<^verbatim>\<open>buildTree\<close> (the builder with \<^verbatim>\<open>addUnique\<close>) never produces two
  siblings with the same path and type, at the root or below any node: an entry whose
  path and type are already among the siblings reuses that node.
  (\<^verbatim>\<open>buildTreeFromEntries\<close> inserts every entry.)
\<close>

theorem buildTree_no_duplicate_siblings:
  "unique_forest (buildTree entries) \<and>
   (find_index (\<lambda>n. n_path n = n_path node \<and> n_type n = n_type node) arr = Some i \<longrightarrow>
      addUnique arr node = (arr, i, arr ! i))"
proof -
  have "unique_forest (fst (fold build_step entries ([], [])))"
    by (rule fold_build_step_unique) (simp add: unique_forest_def)
  then show ?thesis
    by (simp add: buildTree_def addUnique_def)
qed

theorem buildTree_no_duplicate_siblings_witness:
  "buildTree [folder_entry (utf16 ''src'') (utf16 ''src'') 0, file_entry (utf16 ''a.ts'') (utf16 ''src/a.ts'') 1,
              folder_entry (utf16 ''src'') (utf16 ''src'') 0, file_entry (utf16 ''a.ts'') (utf16 ''src/a.ts'') 1,
              file_entry (utf16 ''b.ts'') (utf16 ''src/b.ts'') 1] =
     [TreeNode (utf16 ''src'') (utf16 ''src'') Folder 0 (Some True)
        [TreeNode (utf16 ''a.ts'') (utf16 ''src/a.ts'') File 1 (Some True) [],
         TreeNode (utf16 ''b.ts'') (utf16 ''src/b.ts'') File 1 (Some True) []]] \<and>
   unique_forest
     (buildTree [folder_entry (utf16 ''src'') (utf16 ''src'') 0, file_entry (utf16 ''a.ts'') (utf16 ''src/a.ts'') 1,
                 folder_entry (utf16 ''src'') (utf16 ''src'') 0, file_entry (utf16 ''a.ts'') (utf16 ''src/a.ts'') 1,
                 file_entry (utf16 ''b.ts'') (utf16 ''src/b.ts'') 1])"
proof -
  have val: "buildTree [folder_entry (utf16 ''src'') (utf16 ''src'') 0, file_entry (utf16 ''a.ts'') (utf16 ''src/a.ts'') 1,
              folder_entry (utf16 ''src'') (utf16 ''src'') 0, file_entry (utf16 ''a.ts'') (utf16 ''src/a.ts'') 1,
              file_entry (utf16 ''b.ts'') (utf16 ''src/b.ts'') 1] =
     [TreeNode (utf16 ''src'') (utf16 ''src'') Folder 0 (Some True)
        [TreeNode (utf16 ''a.ts'') (utf16 ''src/a.ts'') File 1 (Some True) [],
         TreeNode (utf16 ''b.ts'') (utf16 ''src/b.ts'') File 1 (Some True) []]]"
    by (simp add: tree_eval)
  show ?thesis
    using buildTree_no_duplicate_siblings
      [of "[folder_entry (utf16 ''src'') (utf16 ''src'') 0, file_entry (utf16 ''a.ts'') (utf16 ''src/a.ts'') 1,
            folder_entry (utf16 ''src'') (utf16 ''src'') 0, file_entry (utf16 ''a.ts'') (utf16 ''src/a.ts'') 1,
            file_entry (utf16 ''b.ts'') (utf16 ''src/b.ts'') 1]"] val
    by blast
qed

subsection \<open>The entry-based builder on entries derived from paths\<close>

text \<open>
  A reference is valid when it leads to a node of the forest. The levels of a forest are
  regular from \<open>d\<close> when every node at depth \<open>k\<close> below it has level \<open>d + k\<close>.
\<close>

fun valid_ref :: "node_ref \<Rightarrow> tree_node list \<Rightarrow> bool" where
  "valid_ref [] forest = True"
| "valid_ref (i # r) forest = (i < length forest \<and> valid_ref r (n_children (forest ! i)))"

fun levels_from :: "int \<Rightarrow> tree_node \<Rightarrow> bool" where
  "levels_from d (TreeNode nm p t l s cs) = (l = d \<and> (\<forall>c \<in> set cs. levels_from (d + 1) c))"

definition forest_levels :: "int \<Rightarrow> tree_node list \<Rightarrow> bool" where
  "forest_levels d forest = (\<forall>n \<in> set forest. levels_from d n)"

definition cur_ref :: "(int \<times> node_ref) list \<Rightarrow> node_ref" where
  "cur_ref stack = (case stack of [] \<Rightarrow> [] | (l, parent) # rest \<Rightarrow> parent)"

definition stack_nonneg :: "(int \<times> node_ref) list \<Rightarrow> bool" where
  "stack_nonneg stack = (\<forall>x \<in> set stack. 0 \<le> fst x)"

text \<open>
  The entries of one path, inserted as a chain: each entry is added (or found) among the
  children of the entry before it.
\<close>

fun chain_insert :: "directory_entry list \<Rightarrow> tree_node list \<Rightarrow> tree_node list" where
  "chain_insert [] forest = forest"
| "chain_insert (e # es) forest =
     (let (forest', k, added) = addUnique forest (entry_node e)
      in forest'[k := with_children added (chain_insert es (n_children added))])"

lemma n_children_with_children [simp]: "n_children (with_children n cs) = cs"
  by (simp add: with_children_def)

lemma with_children_same [simp]: "with_children n (n_children n) = n"
  by (cases n) (simp add: with_children_def)

lemma with_children_twice [simp]: "with_children (with_children n a) b = with_children n b"
  by (simp add: with_children_def)

lemma children_at_set: "valid_ref r f \<Longrightarrow> children_at r (set_children_at r cs f) = cs"
  by (induction r arbitrary: f) simp_all

lemma valid_ref_set: "valid_ref r f \<Longrightarrow> valid_ref r (set_children_at r cs f)"
  by (induction r arbitrary: f) simp_all

lemma children_at_snoc:
  "valid_ref r f \<Longrightarrow> k < length (children_at r f) \<Longrightarrow>
   children_at (r @ [k]) f = n_children (children_at r f ! k)"
  by (induction r arbitrary: f) simp_all

lemma valid_ref_snoc:
  "valid_ref r f \<Longrightarrow> k < length (children_at r f) \<Longrightarrow> valid_ref (r @ [k]) f"
  by (induction r arbitrary: f) simp_all

lemma set_children_at_snoc:
  "valid_ref r f \<Longrightarrow> k < length (children_at r f) \<Longrightarrow>
   set_children_at (r @ [k]) X f =
     set_children_at r ((children_at r f)[k := with_children (children_at r f ! k) X]) f"
  by (induction r arbitrary: f) simp_all

lemma set_children_at_twice:
  "set_children_at r a (set_children_at r b f) = set_children_at r a f"
  by (induction r arbitrary: f) simp_all

lemma set_children_at_same: "valid_ref r f \<Longrightarrow> set_children_at r (children_at r f) f = f"
  by (induction r arbitrary: f) simp_all

lemma addUnique_cases:
  assumes "addUnique arr node = (cs, k, added)"
  shows "k < length cs \<and> cs ! k = added \<and>
    ((cs = arr @ [node] \<and> added = node) \<or> (cs = arr \<and> added \<in> set arr))"
proof (cases "find_index (\<lambda>n. n_path n = n_path node \<and> n_type n = n_type node) arr")
  case None
  with assms show ?thesis by (auto simp: addUnique_def)
next
  case (Some i)
  then have "i < length arr"
    by (simp add: find_index_Some)
  with assms Some show ?thesis by (auto simp: addUnique_def)
qed

lemma levels_from_children: "levels_from d n \<Longrightarrow> forest_levels (d + 1) (n_children n)"
  by (cases n) (simp add: forest_levels_def)

lemma levels_from_level: "levels_from d n \<Longrightarrow> n_level n = d"
  by (cases n) simp

lemma levels_from_with_children:
  "levels_from d n \<Longrightarrow> forest_levels (d + 1) cs \<Longrightarrow> levels_from d (with_children n cs)"
  by (cases n) (simp add: with_children_def forest_levels_def)

lemma levels_from_entry_node: "e_level e = d \<Longrightarrow> levels_from d (entry_node e)"
  by (simp add: entry_node_def)

lemma addUnique_levels:
  assumes "addUnique arr (entry_node e) = (cs, k, added)"
    and "forest_levels d arr" and "e_level e = d"
  shows "forest_levels d cs \<and> levels_from d added"
  using addUnique_cases [OF assms(1)] assms(2,3)
  by (auto simp: forest_levels_def levels_from_entry_node)

lemma build_step_eq:
  "build_step entry (tree, st) =
     (let stk = pop_stack (e_level entry) st;
          r = cur_ref stk;
          (cs, k, added) = addUnique (children_at r tree) (entry_node entry)
      in (set_children_at r cs tree,
          if e_type entry = Folder then (n_level added, r @ [k]) # stk else stk))"
  by (cases "pop_stack (e_level entry) st")
    (auto simp: build_step_def cur_ref_def Let_def split: prod.splits)

lemma pop_stack_subset: "set (pop_stack i st) \<subseteq> set st"
  unfolding pop_stack_def by (rule set_dropWhileD [THEN subsetI]) simp

lemma pop_stack_nonneg: "stack_nonneg st \<Longrightarrow> stack_nonneg (pop_stack i st)"
  using pop_stack_subset [of i st] by (auto simp: stack_nonneg_def)

lemma pop_stack_all: "stack_nonneg st \<Longrightarrow> pop_stack 0 st = []"
  by (auto simp: pop_stack_def stack_nonneg_def)

lemma pop_stack_top: "l < i \<Longrightarrow> pop_stack i ((l, r) # st) = (l, r) # st"
  by (simp add: pop_stack_def)

lemma path_entries_levels:
  "forest_levels i f \<Longrightarrow> forest_levels i (chain_insert (path_entries agg i parts) f)"
proof (induction parts arbitrary: agg i f)
  case Nil
  then show ?case by simp
next
  case (Cons seg rest)
  define agg' where "agg' = (if agg \<noteq> [] then agg @ [slash] @ seg else seg)"
  define e where "e = \<lparr>e_type = (if rest = [] then File else Folder), e_name = seg,
    e_path = agg', e_level = i, e_supported = Some True\<rparr>"
  obtain cs k added where au: "addUnique f (entry_node e) = (cs, k, added)"
    by (cases "addUnique f (entry_node e)")
  have lv: "forest_levels i cs" "levels_from i added"
    using addUnique_levels [OF au Cons.prems] by (simp_all add: e_def)
  have "forest_levels (i + 1) (chain_insert (path_entries agg' (i + 1) rest) (n_children added))"
    by (intro Cons.IH levels_from_children lv)
  then have new: "levels_from i (with_children added
      (chain_insert (path_entries agg' (i + 1) rest) (n_children added)))"
    by (intro levels_from_with_children lv)
  have "forest_levels i (cs[k := with_children added
      (chain_insert (path_entries agg' (i + 1) rest) (n_children added))])"
    unfolding forest_levels_def
  proof
    fix n
    assume "n \<in> set (cs[k := with_children added
      (chain_insert (path_entries agg' (i + 1) rest) (n_children added))])"
    then have "n = with_children added
      (chain_insert (path_entries agg' (i + 1) rest) (n_children added)) \<or> n \<in> set cs"
      using set_update_subset_insert by fastforce
    then show "levels_from i n"
      using new lv(1) by (auto simp: forest_levels_def)
  qed
  then show ?case
    using au by (simp add: Let_def agg'_def e_def)
qed

lemma fold_path_entries:
  assumes "valid_ref r tree" and "forest_levels i (children_at r tree)"
    and "cur_ref (pop_stack i st) = r" and "stack_nonneg st" and "0 \<le> i"
  shows "\<exists>st'. fold build_step (path_entries agg i parts) (tree, st) =
      (set_children_at r (chain_insert (path_entries agg i parts) (children_at r tree)) tree, st')
    \<and> stack_nonneg st'"
  using assms
proof (induction parts arbitrary: agg i r tree st)
  case Nil
  then show ?case
    by (simp add: set_children_at_same)
next
  case (Cons seg rest)
  define agg' where "agg' = (if agg \<noteq> [] then agg @ [slash] @ seg else seg)"
  define e where "e = \<lparr>e_type = (if rest = [] then File else Folder), e_name = seg,
    e_path = agg', e_level = i, e_supported = Some True\<rparr>"
  define stk where "stk = pop_stack i st"
  obtain cs k added where au: "addUnique (children_at r tree) (entry_node e) = (cs, k, added)"
    by (cases "addUnique (children_at r tree) (entry_node e)")
  have k: "k < length cs" "cs ! k = added"
    using addUnique_cases [OF au] by simp_all
  have lv: "forest_levels i cs" "levels_from i added"
    using addUnique_levels [OF au Cons.prems(2)] by (simp_all add: e_def)
  define tree1 where "tree1 = set_children_at r cs tree"
  define st1 where "st1 = (if rest = [] then stk else (n_level added, r @ [k]) # stk)"
  have step: "build_step e (tree, st) = (tree1, st1)"
    using au Cons.prems(3)
    by (simp add: build_step_eq Let_def e_def stk_def tree1_def st1_def)
  have nonneg1: "stack_nonneg st1"
    using pop_stack_nonneg [OF Cons.prems(4), of i] levels_from_level [OF lv(2)] Cons.prems(5)
    by (simp add: st1_def stk_def stack_nonneg_def)
  have ch1: "children_at r tree1 = cs"
    unfolding tree1_def by (rule children_at_set) (rule Cons.prems(1))
  have entries: "path_entries agg i (seg # rest) = e # path_entries agg' (i + 1) rest"
    by (simp add: Let_def e_def agg'_def)
  show ?case
  proof (cases "rest = []")
    case True
    have "cs[k := added] = cs"
      using k by (metis list_update_id)
    then have "chain_insert [e] (children_at r tree) = cs"
      using au by (simp add: Let_def)
    then show ?thesis
      using True step nonneg1 unfolding entries by (simp add: tree1_def)
  next
    case False
    have v1: "valid_ref (r @ [k]) tree1"
      using Cons.prems(1) k(1) ch1 unfolding tree1_def
      by (intro valid_ref_snoc valid_ref_set) simp_all
    have c1: "children_at (r @ [k]) tree1 = n_children added"
      using children_at_snoc [of r tree1 k] valid_ref_set [OF Cons.prems(1)] k ch1
      by (simp add: tree1_def)
    have l1: "forest_levels (i + 1) (children_at (r @ [k]) tree1)"
      unfolding c1 by (intro levels_from_children lv)
    have top: "cur_ref (pop_stack (i + 1) st1) = r @ [k]"
      using False levels_from_level [OF lv(2)]
      by (simp add: st1_def pop_stack_top cur_ref_def)
    obtain st' where rec: "fold build_step (path_entries agg' (i + 1) rest) (tree1, st1) =
        (set_children_at (r @ [k])
           (chain_insert (path_entries agg' (i + 1) rest) (children_at (r @ [k]) tree1)) tree1, st')"
      and nn: "stack_nonneg st'"
      using Cons.IH [OF v1 l1 top nonneg1, of agg'] Cons.prems(5) by auto
    have "set_children_at (r @ [k])
           (chain_insert (path_entries agg' (i + 1) rest) (n_children added)) tree1 =
        set_children_at r (cs[k := with_children added
           (chain_insert (path_entries agg' (i + 1) rest) (n_children added))]) tree"
      using set_children_at_snoc [of r tree1 k] valid_ref_set [OF Cons.prems(1)] k ch1
      by (simp add: tree1_def set_children_at_twice)
    moreover have "chain_insert (e # path_entries agg' (i + 1) rest) (children_at r tree) =
        cs[k := with_children added
           (chain_insert (path_entries agg' (i + 1) rest) (n_children added))]"
      using au by (simp add: Let_def)
    ultimately show ?thesis
      using step rec nn c1 unfolding entries by simp
  qed
qed

lemma fold_one_path:
  assumes "forest_levels 0 tree" and "stack_nonneg st"
  shows "\<exists>st'. fold build_step (path_entries [] 0 parts) (tree, st) =
      (chain_insert (path_entries [] 0 parts) tree, st') \<and> stack_nonneg st'"
  using fold_path_entries [of "[]" tree 0 st "[]" parts] assms
  by (simp add: pop_stack_all cur_ref_def)

lemma fold_all_paths:
  assumes "forest_levels 0 tree" and "stack_nonneg st"
  shows "\<exists>st'. fold build_step (entriesFromPaths paths) (tree, st) =
      (fold (\<lambda>p. chain_insert (path_entries [] 0 (path_parts p))) paths tree, st')
    \<and> stack_nonneg st'"
  using assms
proof (induction paths arbitrary: tree st)
  case Nil
  then show ?case by (simp add: entriesFromPaths_def)
next
  case (Cons p paths)
  obtain st1 where one: "fold build_step (path_entries [] 0 (path_parts p)) (tree, st) =
      (chain_insert (path_entries [] 0 (path_parts p)) tree, st1)" and nn: "stack_nonneg st1"
    using fold_one_path [OF Cons.prems] by blast
  have lv: "forest_levels 0 (chain_insert (path_entries [] 0 (path_parts p)) tree)"
    by (intro path_entries_levels Cons.prems)
  show ?case
    using Cons.IH [OF lv nn] one by (simp add: entriesFromPaths_def)
qed

lemma buildTree_entriesFromPaths:
  "buildTree (entriesFromPaths paths) =
     fold (\<lambda>p. chain_insert (path_entries [] 0 (path_parts p))) paths []"
  using fold_all_paths [of "[]" "[]" paths]
  by (auto simp: buildTree_def forest_levels_def stack_nonneg_def)

subsection \<open>The two builders side by side\<close>

text \<open>
  As long as no segment is a key of \<^verbatim>\<open>Object.prototype\<close> and
  \<^verbatim>\<open>Object.prototype.children\<close> does not exist, the walk stays among the nodes below
  \<^verbatim>\<open>root\<close>, and what one path does to the dictionary of \<^verbatim>\<open>root\<close> is an insertion
  into a trie (shown below, in \<open>buildTreeFromFilePaths_plain\<close>):
\<close>

fun trie_insert :: "jstring \<Rightarrow> jstring list \<Rightarrow> children_obj \<Rightarrow> children_obj" where
  "trie_insert agg [] children = children"
| "trie_insert agg (segment # rest) children =
     (let agg' = agg @ [slash] @ segment in
      case map_of children segment of
        Some child \<Rightarrow>
          map (\<lambda>(k, v). if k = segment
                 then (k, PathNode (p_name v) (p_path v) (p_type v)
                            (trie_insert agg' rest (p_children v)))
                 else (k, v)) children
      | None \<Rightarrow>
          children @
            [(segment, PathNode segment agg' (if rest = [] then File else Folder)
                         (trie_insert agg' rest []))])"

text \<open>
  The nested objects of the path-based builder, read as a forest of the entry-based one:
  keys in insertion order, every path without its leading slash, the level equal to the
  depth, \<^verbatim>\<open>supported: true\<close>.
\<close>

fun as_entry_tree :: "int \<Rightarrow> path_node \<Rightarrow> tree_node" where
  "as_entry_tree lvl (PathNode nm p t cs) =
     TreeNode nm (drop 1 p) t lvl (Some True) (map (as_entry_tree (lvl + 1)) (map snd cs))"

definition as_entry_forest :: "int \<Rightarrow> (jstring \<times> path_node) list \<Rightarrow> tree_node list" where
  "as_entry_forest lvl ch = map (as_entry_tree lvl) (map snd ch)"

text \<open>
  Well-formed nested objects below the path \<open>agg\<close>: every value is stored under its own
  name, carries the path of its parent extended by that name, and has no children when it
  is a file; the keys of an object are distinct.
\<close>

fun wf_trie :: "jstring \<Rightarrow> path_node \<Rightarrow> bool" where
  "wf_trie agg (PathNode nm p t cs) =
     (p = agg @ [slash] @ nm \<and> (t = File \<longrightarrow> cs = []) \<and> distinct (map fst cs) \<and>
      (\<forall>kv \<in> set cs. p_name (snd kv) = fst kv \<and> wf_trie p (snd kv)))"

definition wf_children :: "jstring \<Rightarrow> (jstring \<times> path_node) list \<Rightarrow> bool" where
  "wf_children agg ch =
     (distinct (map fst ch) \<and> (\<forall>kv \<in> set ch. p_name (snd kv) = fst kv \<and> wf_trie agg (snd kv)))"

text \<open>
  A path is compatible with the objects built so far when every node it meets has the
  type the path gives it: a folder for an inner segment, a file for the last one.
\<close>

fun compat :: "jstring list \<Rightarrow> (jstring \<times> path_node) list \<Rightarrow> bool" where
  "compat [] ch = True"
| "compat (seg # rest) ch =
     (case map_of ch seg of
        None \<Rightarrow> True
      | Some v \<Rightarrow> p_type v = (if rest = [] then File else Folder) \<and> compat rest (p_children v))"

lemma compat_empty [simp]: "compat parts []"
  by (cases parts) simp_all

text \<open>Segments that are not empty and name no member of \<^verbatim>\<open>Object.prototype\<close>.\<close>

definition plain_segments :: "jstring list \<Rightarrow> bool" where
  "plain_segments parts = (\<forall>s \<in> set parts. s \<noteq> [] \<and> s \<notin> set object_prototype_keys)"

definition join_path :: "jstring \<Rightarrow> jstring \<Rightarrow> jstring" where
  "join_path agg seg = (if agg \<noteq> [] then agg @ [slash] @ seg else seg)"

definition slashed :: "jstring \<Rightarrow> jstring" where
  "slashed agg = (if agg = [] then [] else [slash] @ agg)"

lemma drop_slashed: "drop 1 (slashed agg @ [slash] @ k) = join_path agg k"
  by (simp add: slashed_def join_path_def)

lemma slashed_join: "seg \<noteq> [] \<Longrightarrow> slashed (join_path agg seg) = slashed agg @ [slash] @ seg"
  by (simp add: slashed_def join_path_def)

lemma join_path_inj: "join_path agg k = join_path agg seg \<longleftrightarrow> k = seg"
  by (simp add: join_path_def)

lemma wf_trie_path: "wf_trie agg v \<Longrightarrow> p_path v = agg @ [slash] @ p_name v"
  by (cases v) simp

lemma wf_trie_children: "wf_trie agg v \<Longrightarrow> wf_children (p_path v) (p_children v)"
  by (cases v) (simp add: wf_children_def)

lemma wf_trie_file: "wf_trie agg v \<Longrightarrow> p_type v = File \<Longrightarrow> p_children v = []"
  by (cases v) simp

lemma as_entry_tree_sel:
  "n_path (as_entry_tree lvl v) = drop 1 (p_path v)"
  "n_type (as_entry_tree lvl v) = p_type v"
  "n_name (as_entry_tree lvl v) = p_name v"
  "n_children (as_entry_tree lvl v) = as_entry_forest (lvl + 1) (p_children v)"
  by (cases v; simp add: as_entry_forest_def)+

lemma wf_children_key_path:
  assumes "wf_children (slashed agg) ch" and "kv \<in> set ch"
  shows "n_path (as_entry_tree lvl (snd kv)) = join_path agg (fst kv)"
proof -
  have "p_name (snd kv) = fst kv" "wf_trie (slashed agg) (snd kv)"
    using assms by (auto simp: wf_children_def)
  then have "p_path (snd kv) = slashed agg @ [slash] @ fst kv"
    using wf_trie_path [of "slashed agg" "snd kv"] by simp
  then show ?thesis
    by (simp only: as_entry_tree_sel drop_slashed)
qed

lemma map_of_wf:
  "distinct (map fst ch) \<Longrightarrow> map_of ch seg = Some v \<longleftrightarrow> (seg, v) \<in> set ch"
  by simp

lemma find_absent:
  assumes "wf_children (slashed agg) ch" and "map_of ch seg = None"
  shows "find_index (\<lambda>n. n_path n = join_path agg seg \<and> n_type n = t) (as_entry_forest lvl ch) = None"
proof -
  have "\<forall>kv \<in> set ch. fst kv \<noteq> seg"
    using assms(2) by (metis map_of_eq_None_iff image_eqI)
  then have "\<forall>kv \<in> set ch. n_path (as_entry_tree lvl (snd kv)) \<noteq> join_path agg seg"
    using wf_children_key_path [OF assms(1)] by (simp add: join_path_inj)
  then show ?thesis
    by (auto simp: find_index_None as_entry_forest_def)
qed

lemma find_present:
  assumes "\<forall>kv \<in> set ch. n_path (F (snd kv)) = join_path agg (fst kv)"
    and "distinct (map fst ch)" and "(seg, v) \<in> set ch" and "n_type (F v) = t"
  shows "\<exists>j < length ch. ch ! j = (seg, v) \<and>
      find_index (\<lambda>n. n_path n = join_path agg seg \<and> n_type n = t) (map F (map snd ch)) = Some j \<and>
      map (\<lambda>(k, w). if k = seg then (k, g w) else (k, w)) ch = ch[j := (seg, g v)]"
  using assms
proof (induction ch)
  case Nil
  then show ?case by simp
next
  case (Cons kv ch)
  show ?case
  proof (cases "fst kv = seg")
    case True
    then have kv: "kv = (seg, v)"
      using Cons.prems(2,3) by (cases kv) (auto simp: image_iff)
    have "\<forall>x \<in> set ch. fst x \<noteq> seg"
      using Cons.prems(2) True by (auto simp: image_iff)
    then have "map (\<lambda>(k, w). if k = seg then (k, g w) else (k, w)) ch = ch"
      by (induction ch) auto
    then show ?thesis
      using kv Cons.prems(1,4) by (intro exI [of _ 0]) simp
  next
    case False
    then have mem: "(seg, v) \<in> set ch"
      using Cons.prems(3) by auto
    obtain j where j: "j < length ch" "ch ! j = (seg, v)"
      "find_index (\<lambda>n. n_path n = join_path agg seg \<and> n_type n = t) (map F (map snd ch)) = Some j"
      "map (\<lambda>(k, w). if k = seg then (k, g w) else (k, w)) ch = ch[j := (seg, g v)]"
      using Cons.IH [OF _ _ mem Cons.prems(4)] Cons.prems(1,2) by auto
    have "n_path (F (snd kv)) \<noteq> join_path agg seg"
      using Cons.prems(1) False by (simp add: join_path_inj)
    then show ?thesis
      using j False by (intro exI [of _ "Suc j"]) (cases kv, simp)
  qed
qed

lemma chain_insert_simulates:
  assumes "wf_children (slashed agg) ch" and "compat parts ch" and "plain_segments parts"
  shows "chain_insert (path_entries agg i parts) (as_entry_forest i ch) =
      as_entry_forest i (trie_insert (slashed agg) parts ch)"
  using assms
proof (induction parts arbitrary: agg i ch)
  case Nil
  then show ?case by simp
next
  case (Cons seg rest)
  define t where "t = (if rest = [] then File else Folder)"
  define agg' where "agg' = join_path agg seg"
  define e where "e = \<lparr>e_type = t, e_name = seg, e_path = agg', e_level = i,
    e_supported = Some True\<rparr>"
  have seg: "seg \<noteq> []" "seg \<notin> set object_prototype_keys" and rest: "plain_segments rest"
    using Cons.prems(3) by (simp_all add: plain_segments_def)
  have sl: "slashed agg @ [slash] @ seg = slashed agg'"
    using seg(1) by (simp add: agg'_def slashed_join)
  have entries: "path_entries agg i (seg # rest) = e # path_entries agg' (i + 1) rest"
    by (simp add: Let_def e_def agg'_def t_def join_path_def)
  have key: "(\<lambda>n. n_path n = n_path (entry_node e) \<and> n_type n = n_type (entry_node e)) =
      (\<lambda>n. n_path n = join_path agg seg \<and> n_type n = t)"
    by (simp add: entry_node_def e_def agg'_def)
  show ?case
  proof (cases "map_of ch seg")
    case None
    have au: "addUnique (as_entry_forest i ch) (entry_node e) =
        (as_entry_forest i ch @ [entry_node e], length (as_entry_forest i ch), entry_node e)"
      using find_absent [OF Cons.prems(1) None, of t i] by (simp add: addUnique_def key)
    have "chain_insert (path_entries agg' (i + 1) rest) (as_entry_forest (i + 1) []) =
        as_entry_forest (i + 1) (trie_insert (slashed agg') rest [])"
      by (intro Cons.IH rest) (simp_all add: wf_children_def)
    then have sub: "chain_insert (path_entries agg' (i + 1) rest) [] =
        as_entry_forest (i + 1) (trie_insert (slashed agg') rest [])"
      by (simp add: as_entry_forest_def)
    have lhs: "chain_insert (e # path_entries agg' (i + 1) rest) (as_entry_forest i ch) =
        as_entry_forest i ch @ [with_children (entry_node e)
          (as_entry_forest (i + 1) (trie_insert (slashed agg') rest []))]"
      using au sub by (simp add: Let_def entry_node_def)
    have "drop 1 (slashed agg') = agg'"
      using seg(1) by (simp add: slashed_def agg'_def join_path_def)
    then have rhs: "as_entry_forest i (trie_insert (slashed agg) (seg # rest) ch) =
        as_entry_forest i ch @ [with_children (entry_node e)
          (as_entry_forest (i + 1) (trie_insert (slashed agg') rest []))]"
      using None seg(2) sl
      by (simp add: Let_def as_entry_forest_def with_children_def entry_node_def e_def t_def)
    show ?thesis
      unfolding entries lhs rhs ..
  next
    case (Some v)
    have mem: "(seg, v) \<in> set ch"
      using Some by (rule map_of_SomeD)
    have dist: "distinct (map fst ch)"
      using Cons.prems(1) by (simp add: wf_children_def)
    have v: "p_name v = seg" "wf_trie (slashed agg) v"
      using Cons.prems(1) mem by (auto simp: wf_children_def)
    have cv: "p_type v = t" "compat rest (p_children v)"
      using Cons.prems(2) Some by (simp_all add: t_def)
    have pv: "p_path v = slashed agg'"
      using wf_trie_path [OF v(2)] v(1) sl by simp
    define g where "g w = PathNode (p_name w) (p_path w) (p_type w)
      (trie_insert (slashed agg') rest (p_children w))" for w
    obtain j where j: "j < length ch" "ch ! j = (seg, v)"
      "find_index (\<lambda>n. n_path n = join_path agg seg \<and> n_type n = t)
         (map (as_entry_tree i) (map snd ch)) = Some j"
      "map (\<lambda>(k, w). if k = seg then (k, g w) else (k, w)) ch = ch[j := (seg, g v)]"
      using find_present [of ch "as_entry_tree i" agg seg v t g]
        wf_children_key_path [OF Cons.prems(1)] dist mem cv(1)
      by (auto simp: as_entry_tree_sel)
    have nth: "as_entry_forest i ch ! j = as_entry_tree i v"
      using j(1,2) by (simp add: as_entry_forest_def)
    have au: "addUnique (as_entry_forest i ch) (entry_node e) =
        (as_entry_forest i ch, j, as_entry_tree i v)"
      using j(3) nth by (simp add: addUnique_def key as_entry_forest_def)
    have sub: "chain_insert (path_entries agg' (i + 1) rest) (as_entry_forest (i + 1) (p_children v)) =
        as_entry_forest (i + 1) (trie_insert (slashed agg') rest (p_children v))"
      using wf_trie_children [OF v(2)] cv(2) rest unfolding pv by (intro Cons.IH)
    have lhs: "chain_insert (e # path_entries agg' (i + 1) rest) (as_entry_forest i ch) =
        (as_entry_forest i ch)[j := with_children (as_entry_tree i v)
          (as_entry_forest (i + 1) (trie_insert (slashed agg') rest (p_children v)))]"
      using au sub by (simp add: Let_def as_entry_tree_sel)
    have gv: "as_entry_tree i (g v) = with_children (as_entry_tree i v)
        (as_entry_forest (i + 1) (trie_insert (slashed agg') rest (p_children v)))"
      by (cases v) (simp add: g_def with_children_def as_entry_forest_def)
    have "trie_insert (slashed agg) (seg # rest) ch =
        map (\<lambda>(k, w). if k = seg then (k, g w) else (k, w)) ch"
      using Some sl by (auto simp: Let_def g_def)
    then have "trie_insert (slashed agg) (seg # rest) ch = ch[j := (seg, g v)]"
      by (simp only: j(4))
    then have rhs: "as_entry_forest i (trie_insert (slashed agg) (seg # rest) ch) =
        (as_entry_forest i ch)[j := as_entry_tree i (g v)]"
      by (simp add: as_entry_forest_def map_update)
    show ?thesis
      unfolding entries lhs rhs gv ..
  qed
qed

lemma wf_trie_iff:
  "wf_trie agg (PathNode nm p t cs) =
     (p = agg @ [slash] @ nm \<and> (t = File \<longrightarrow> cs = []) \<and> wf_children p cs)"
  by (simp add: wf_children_def)

lemma map_of_updated:
  "map_of (map (\<lambda>(k, w). if k = seg then (k, g w) else (k, w)) ch) s =
     (if s = seg then map_option g (map_of ch seg) else map_of ch s)"
  by (induction ch) auto

lemma trie_insert_wf:
  assumes "wf_children agg ch" and "compat parts ch"
  shows "wf_children agg (trie_insert agg parts ch)"
  using assms
proof (induction parts arbitrary: agg ch)
  case Nil
  then show ?case by simp
next
  case (Cons seg rest)
  define agg' where "agg' = agg @ [slash] @ seg"
  show ?case
  proof (cases "map_of ch seg")
    case None
    have fresh: "seg \<notin> fst ` set ch"
      using None by (simp add: map_of_eq_None_iff)
    have "wf_children agg' (trie_insert agg' rest [])"
      by (intro Cons.IH) (simp_all add: wf_children_def)
    moreover have "rest = [] \<longrightarrow> trie_insert agg' rest [] = []"
      by simp
    ultimately have "wf_trie agg (PathNode seg agg' (if rest = [] then File else Folder)
        (trie_insert agg' rest []))"
      unfolding wf_trie_iff by (simp add: agg'_def)
    then show ?thesis
      using None fresh Cons.prems(1) by (auto simp: Let_def agg'_def wf_children_def)
  next
    case (Some v)
    have mem: "(seg, v) \<in> set ch"
      using Some by (rule map_of_SomeD)
    have v: "p_name v = seg" "wf_trie agg v"
      using Cons.prems(1) mem by (auto simp: wf_children_def)
    have cv: "p_type v = (if rest = [] then File else Folder)" "compat rest (p_children v)"
      using Cons.prems(2) Some by simp_all
    have pv: "p_path v = agg'"
      using wf_trie_path [OF v(2)] v(1) by (simp add: agg'_def)
    define g where "g w = PathNode (p_name w) (p_path w) (p_type w)
      (trie_insert agg' rest (p_children w))" for w
    have sub: "wf_children agg' (trie_insert agg' rest (p_children v))"
      using wf_trie_children [OF v(2)] cv(2) unfolding pv by (intro Cons.IH)
    have no_kids: "p_type v = File \<longrightarrow> trie_insert agg' rest (p_children v) = []"
      using cv(1) wf_trie_file [OF v(2)] by (auto split: if_splits)
    have gv: "wf_trie agg (g v) \<and> p_name (g v) = seg"
      unfolding g_def wf_trie_iff using sub no_kids v(1) pv by (simp add: agg'_def)
    have ins: "trie_insert agg (seg # rest) ch =
        map (\<lambda>(k, w). if k = seg then (k, g w) else (k, w)) ch"
      using Some by (auto simp: Let_def g_def agg'_def)
    have keys: "map fst (map (\<lambda>(k, w). if k = seg then (k, g w) else (k, w)) ch) = map fst ch"
      by (induction ch) auto
    have elems: "\<forall>kv \<in> set (map (\<lambda>(k, w). if k = seg then (k, g w) else (k, w)) ch).
        p_name (snd kv) = fst kv \<and> wf_trie agg (snd kv)"
    proof
      fix kv
      assume "kv \<in> set (map (\<lambda>(k, w). if k = seg then (k, g w) else (k, w)) ch)"
      then obtain k w where kw: "(k, w) \<in> set ch"
        "kv = (if k = seg then (k, g w) else (k, w))"
        by auto
      show "p_name (snd kv) = fst kv \<and> wf_trie agg (snd kv)"
      proof (cases "k = seg")
        case True
        then have "w = v"
          using kw(1) mem Cons.prems(1) by (auto simp: wf_children_def dest: eq_key_imp_eq_value)
        then show ?thesis
          using True kw(2) gv by simp
      next
        case False
        then show ?thesis
          using kw Cons.prems(1) by (auto simp: wf_children_def)
      qed
    qed
    show ?thesis
      unfolding ins wf_children_def keys using Cons.prems(1) elems
      by (simp add: wf_children_def)
  qed
qed

text \<open>The type of the node that a sequence of segments leads to, if there is one.\<close>

fun type_at :: "jstring list \<Rightarrow> (jstring \<times> path_node) list \<Rightarrow> node_type option" where
  "type_at [] ch = None"
| "type_at (seg # rest) ch =
     (case map_of ch seg of
        None \<Rightarrow> None
      | Some v \<Rightarrow> if rest = [] then Some (p_type v) else type_at rest (p_children v))"

text \<open>
  The objects reflect a set of segment sequences when every file node is one of them and
  every folder node a proper prefix of one of them.
\<close>

definition trie_reflects :: "(jstring \<times> path_node) list \<Rightarrow> jstring list set \<Rightarrow> bool" where
  "trie_reflects ch P =
     (\<forall>w. (type_at w ch = Some File \<longrightarrow> w \<in> P) \<and>
          (type_at w ch = Some Folder \<longrightarrow> (\<exists>q \<in> P. strict_prefix w q)))"

definition all_free :: "jstring list set \<Rightarrow> bool" where
  "all_free S = (\<forall>p \<in> S. \<forall>q \<in> S. p \<noteq> [] \<longrightarrow> \<not> strict_prefix p q)"

lemma type_at_insert:
  assumes "plain_segments parts"
  shows "type_at w (trie_insert agg parts ch) =
     (case type_at w ch of
        Some t \<Rightarrow> Some t
      | None \<Rightarrow> if w \<noteq> [] \<and> prefix w parts
                then Some (if w = parts then File else Folder) else None)"
  using assms
proof (induction parts arbitrary: w agg ch)
  case Nil
  then show ?case by (cases "type_at w ch") simp_all
next
  case (Cons seg rest)
  have seg: "seg \<notin> set object_prototype_keys" and rest: "plain_segments rest"
    using Cons.prems by (simp_all add: plain_segments_def)
  define agg' where "agg' = agg @ [slash] @ seg"
  show ?case
  proof (cases w)
    case Nil
    then show ?thesis by simp
  next
    case w: (Cons s w')
    show ?thesis
    proof (cases "map_of ch seg")
      case None
      define N where "N = PathNode seg agg' (if rest = [] then File else Folder)
        (trie_insert agg' rest [])"
      have ins: "trie_insert agg (seg # rest) ch = ch @ [(seg, N)]"
        using None seg by (simp add: Let_def N_def agg'_def)
      have look: "map_of (ch @ [(seg, N)]) s =
          (case map_of ch s of Some x \<Rightarrow> Some x | None \<Rightarrow> if s = seg then Some N else None)"
        by (simp add: map_add_def split: option.splits)
      show ?thesis
      proof (cases "s = seg")
        case True
        have sub: "type_at w' (trie_insert agg' rest []) =
            (if w' \<noteq> [] \<and> prefix w' rest then Some (if w' = rest then File else Folder) else None)"
          using Cons.IH [OF rest, of w' agg' "[]"] by (cases w') simp_all
        show ?thesis
          unfolding ins w using True None look sub
          by (simp add: N_def)
      next
        case False
        then show ?thesis
          unfolding ins w using look by (simp split: option.splits)
      qed
    next
      case (Some v)
      define g where "g x = PathNode (p_name x) (p_path x) (p_type x)
        (trie_insert agg' rest (p_children x))" for x
      have ins: "trie_insert agg (seg # rest) ch =
          map (\<lambda>(k, x). if k = seg then (k, g x) else (k, x)) ch"
        using Some by (auto simp: Let_def g_def agg'_def)
      show ?thesis
      proof (cases "s = seg")
        case True
        have sub: "type_at w' (trie_insert agg' rest (p_children v)) =
            (case type_at w' (p_children v) of
               Some t \<Rightarrow> Some t
             | None \<Rightarrow> if w' \<noteq> [] \<and> prefix w' rest
                       then Some (if w' = rest then File else Folder) else None)"
          using Cons.IH [OF rest] .
        show ?thesis
          unfolding ins w using True Some sub
          by (simp add: map_of_updated g_def)
      next
        case False
        then show ?thesis
          unfolding ins w by (simp add: map_of_updated split: option.splits)
      qed
    qed
  qed
qed

lemma compat_from_types:
  assumes "\<forall>w t. w \<noteq> [] \<and> prefix w parts \<and> type_at w ch = Some t \<longrightarrow>
      t = (if w = parts then File else Folder)"
  shows "compat parts ch"
  using assms
proof (induction parts arbitrary: ch)
  case Nil
  then show ?case by simp
next
  case (Cons seg rest)
  show ?case
  proof (cases "map_of ch seg")
    case None
    then show ?thesis by simp
  next
    case (Some v)
    have "type_at [seg] ch = Some (p_type v)"
      using Some by simp
    then have ty: "p_type v = (if rest = [] then File else Folder)"
      using Cons.prems [rule_format, of "[seg]" "p_type v"] by simp
    have "compat rest (p_children v)"
    proof (rule Cons.IH, intro allI impI)
      fix w t
      assume a: "w \<noteq> [] \<and> prefix w rest \<and> type_at w (p_children v) = Some t"
      then have "type_at (seg # w) ch = Some t"
        using Some by simp
      then show "t = (if w = rest then File else Folder)"
        using Cons.prems [rule_format, of "seg # w" t] a by simp
    qed
    then show ?thesis
      using Some ty by simp
  qed
qed

lemma reflects_compat:
  assumes "trie_reflects ch P" and "parts \<noteq> []"
    and "\<forall>q \<in> P. \<not> strict_prefix q parts \<and> \<not> strict_prefix parts q"
  shows "compat parts ch"
proof (rule compat_from_types, intro allI impI)
  fix w t
  assume a: "w \<noteq> [] \<and> prefix w parts \<and> type_at w ch = Some t"
  show "t = (if w = parts then File else Folder)"
  proof (cases "w = parts")
    case True
    have "t \<noteq> Folder"
      using a True assms(1,3) by (auto simp: trie_reflects_def)
    then show ?thesis
      using True by (cases t) simp_all
  next
    case False
    then have sp: "strict_prefix w parts"
      using a by (simp add: strict_prefix_def)
    have "t \<noteq> File"
      using a sp assms(1,3) by (auto simp: trie_reflects_def)
    then show ?thesis
      using False by (cases t) simp_all
  qed
qed

lemma reflects_insert:
  assumes "trie_reflects ch P" and "plain_segments parts"
  shows "trie_reflects (trie_insert agg parts ch) (insert parts P)"
  unfolding trie_reflects_def
proof (intro allI conjI impI)
  fix w
  assume "type_at w (trie_insert agg parts ch) = Some File"
  then show "w \<in> insert parts P"
    using assms(1) unfolding type_at_insert [OF assms(2)] trie_reflects_def
    by (auto split: option.splits if_splits)
next
  fix w
  assume "type_at w (trie_insert agg parts ch) = Some Folder"
  then have "type_at w ch = Some Folder \<or> strict_prefix w parts"
    unfolding type_at_insert [OF assms(2)]
    by (auto simp: strict_prefix_def split: option.splits if_splits)
  then show "\<exists>q \<in> insert parts P. strict_prefix w q"
    using assms(1) by (auto simp: trie_reflects_def)
qed

lemma builders_in_step:
  assumes "wf_children [] ch" and "trie_reflects ch P" and "[] \<notin> P"
    and "all_free (P \<union> set pss)" and "\<forall>ps \<in> set pss. plain_segments ps"
  shows "fold (\<lambda>ps. chain_insert (path_entries [] 0 ps)) pss (as_entry_forest 0 ch) =
      as_entry_forest 0 (fold (trie_insert []) pss ch) \<and>
    wf_children [] (fold (trie_insert []) pss ch)"
  using assms
proof (induction pss arbitrary: ch P)
  case Nil
  then show ?case by simp
next
  case (Cons ps pss)
  show ?case
  proof (cases "ps = []")
    case True
    have "all_free (P \<union> set pss)"
      using Cons.prems(4) by (auto simp: all_free_def)
    then show ?thesis
      using Cons.IH [OF Cons.prems(1,2,3)] Cons.prems(5) True by simp
  next
    case False
    have plain: "plain_segments ps"
      using Cons.prems(5) by simp
    have "\<forall>q \<in> P. \<not> strict_prefix q ps \<and> \<not> strict_prefix ps q"
      using Cons.prems(3,4) False unfolding all_free_def
      by (metis UnI1 UnI2 list.set_intros(1))
    then have cp: "compat ps ch"
      using Cons.prems(2) False by (intro reflects_compat)
    have step: "chain_insert (path_entries [] 0 ps) (as_entry_forest 0 ch) =
        as_entry_forest 0 (trie_insert [] ps ch)"
      using chain_insert_simulates [of "[]" ch ps 0] Cons.prems(1) cp plain
      by (simp add: slashed_def)
    have wf: "wf_children [] (trie_insert [] ps ch)"
      using Cons.prems(1) cp by (rule trie_insert_wf)
    have rf: "trie_reflects (trie_insert [] ps ch) (insert ps P)"
      using Cons.prems(2) plain by (rule reflects_insert)
    have free: "all_free (insert ps P \<union> set pss)"
      using Cons.prems(4) by simp
    have ne: "[] \<notin> insert ps P"
      using Cons.prems(3) False by auto
    show ?thesis
      using Cons.IH [OF wf rf ne free] Cons.prems(5) step by simp
  qed
qed

subsection \<open>The path-based builder on plain paths\<close>

text \<open>
  The dictionaries keep their keys distinct at every level. With that, an update at the
  end of a list of keys depends only on the dictionary found there, and the walk from a
  node below \<^verbatim>\<open>root\<close> is the trie insertion at that node.
\<close>

fun distinct_keys :: "path_node \<Rightarrow> bool" where
  "distinct_keys (PathNode nm p t cs) =
     (distinct (map fst cs) \<and> (\<forall>kv \<in> set cs. distinct_keys (snd kv)))"

definition distinct_children :: "children_obj \<Rightarrow> bool" where
  "distinct_children c = (distinct (map fst c) \<and> (\<forall>kv \<in> set c. distinct_keys (snd kv)))"

lemma distinct_keys_iff: "distinct_keys n = distinct_children (p_children n)"
  by (cases n) (simp add: distinct_children_def)

lemma rebuild_node: "PathNode (p_name n) (p_path n) (p_type n) (p_children n) = n"
  by (cases n) simp

lemma update_at_ident: "update_at ks (\<lambda>c. c) c0 = c0"
proof (induction ks arbitrary: c0)
  case Nil
  then show ?case by simp
next
  case (Cons k ks)
  show ?case
    by (induction c0) (auto simp: Cons.IH rebuild_node)
qed

lemma update_at_snoc: "update_at (ks @ [k]) f c0 = update_at ks (update_at [k] f) c0"
proof (induction ks arbitrary: c0)
  case Nil
  then show ?case by simp
next
  case (Cons a ks)
  show ?case
    by (induction c0) (auto simp: Cons.IH)
qed

lemma update_at_comp: "update_at ks f (update_at ks g c0) = update_at ks (\<lambda>c. f (g c)) c0"
proof (induction ks arbitrary: c0)
  case Nil
  then show ?case by simp
next
  case (Cons k ks)
  show ?case
    by (induction c0) (auto simp: Cons.IH)
qed

lemma update_at_cong:
  assumes "distinct_children c0" and "f (descend ks c0) = g (descend ks c0)"
  shows "update_at ks f c0 = update_at ks g c0"
  using assms
proof (induction ks arbitrary: c0)
  case Nil
  then show ?case by simp
next
  case (Cons k ks)
  have sub: "update_at ks f (p_children n) = update_at ks g (p_children n)" if "(k, n) \<in> set c0" for n
  proof -
    have "map_of c0 k = Some n"
      using that Cons.prems(1) by (simp add: distinct_children_def)
    moreover have "distinct_keys n"
      using that Cons.prems(1) by (auto simp: distinct_children_def)
    then have "distinct_children (p_children n)"
      by (simp only: distinct_keys_iff)
    ultimately show ?thesis
      using Cons.prems(2) by (intro Cons.IH) simp_all
  qed
  show ?case
    unfolding update_at.simps
  proof (rule map_cong [OF refl])
    fix x
    assume x: "x \<in> set c0"
    obtain k' n where kn: "x = (k', n)" by (cases x)
    show "(case x of (k', n) \<Rightarrow> if k' = k
            then (k', PathNode (p_name n) (p_path n) (p_type n) (update_at ks f (p_children n)))
            else (k', n)) =
          (case x of (k', n) \<Rightarrow> if k' = k
            then (k', PathNode (p_name n) (p_path n) (p_type n) (update_at ks g (p_children n)))
            else (k', n))"
      using sub [of n] x unfolding kn by (cases "k' = k") simp_all
  qed
qed

lemma trie_insert_distinct:
  "distinct_children c \<Longrightarrow> distinct_children (trie_insert agg parts c)"
proof (induction parts arbitrary: agg c)
  case Nil
  then show ?case by simp
next
  case (Cons seg rest)
  define agg' where "agg' = agg @ [slash] @ seg"
  show ?case
  proof (cases "map_of c seg")
    case None
    have fresh: "seg \<notin> fst ` set c"
      using None by (simp add: map_of_eq_None_iff)
    have "distinct_children (trie_insert agg' rest [])"
      by (intro Cons.IH) (simp add: distinct_children_def)
    then have "distinct_keys (PathNode seg agg' (if rest = [] then File else Folder)
        (trie_insert agg' rest []))"
      by (simp add: distinct_children_def)
    then show ?thesis
      using None fresh Cons.prems by (auto simp: Let_def agg'_def distinct_children_def)
  next
    case (Some v)
    define g where "g w = PathNode (p_name w) (p_path w) (p_type w)
      (trie_insert agg' rest (p_children w))" for w
    have ins: "trie_insert agg (seg # rest) c =
        map (\<lambda>(k, w). if k = seg then (k, g w) else (k, w)) c"
      using Some by (auto simp: Let_def g_def agg'_def)
    have keys: "map fst (map (\<lambda>(k, w). if k = seg then (k, g w) else (k, w)) c) = map fst c"
      by (induction c) auto
    have g: "distinct_keys (g w)" if "distinct_keys w" for w
    proof -
      have "distinct_children (p_children w)"
        using that by (simp only: distinct_keys_iff)
      then have "distinct_children (trie_insert agg' rest (p_children w))"
        by (rule Cons.IH)
      then show ?thesis
        by (simp add: g_def distinct_children_def)
    qed
    have "\<forall>kv \<in> set (map (\<lambda>(k, w). if k = seg then (k, g w) else (k, w)) c). distinct_keys (snd kv)"
      using Cons.prems g by (auto simp: distinct_children_def)
    then show ?thesis
      unfolding ins distinct_children_def keys using Cons.prems
      by (simp add: distinct_children_def)
  qed
qed

lemma descend_distinct: "distinct_children c0 \<Longrightarrow> distinct_children (descend ks c0)"
proof (induction ks arbitrary: c0)
  case Nil
  then show ?case by simp
next
  case (Cons k ks)
  show ?case
  proof (cases "map_of c0 k")
    case None
    then show ?thesis by (simp add: distinct_children_def)
  next
    case (Some n)
    then have "(k, n) \<in> set c0" by (rule map_of_SomeD)
    then have "distinct_keys n"
      using Cons.prems by (auto simp: distinct_children_def)
    then have "distinct_children (p_children n)"
      by (simp only: distinct_keys_iff)
    then show ?thesis
      using Some by (simp add: Cons.IH)
  qed
qed

lemma update_at_distinct:
  assumes "distinct_children c0" and "distinct_children (f (descend ks c0))"
  shows "distinct_children (update_at ks f c0)"
  using assms
proof (induction ks arbitrary: c0)
  case Nil
  then show ?case by simp
next
  case (Cons k ks)
  define g where "g n = PathNode (p_name n) (p_path n) (p_type n) (update_at ks f (p_children n))"
    for n
  have upd: "update_at (k # ks) f c0 = map (\<lambda>(k', n). if k' = k then (k', g n) else (k', n)) c0"
    by (auto simp: g_def)
  have keys: "map fst (map (\<lambda>(k', n). if k' = k then (k', g n) else (k', n)) c0) = map fst c0"
    by (induction c0) auto
  have g: "distinct_keys (g n)" if "(k, n) \<in> set c0" for n
  proof -
    have look: "map_of c0 k = Some n"
      using that Cons.prems(1) by (simp add: distinct_children_def)
    have "distinct_keys n"
      using that Cons.prems(1) by (auto simp: distinct_children_def)
    then have "distinct_children (p_children n)"
      by (simp only: distinct_keys_iff)
    moreover have "distinct_children (f (descend ks (p_children n)))"
      using Cons.prems(2) look by simp
    ultimately have "distinct_children (update_at ks f (p_children n))"
      by (rule Cons.IH)
    then show ?thesis
      by (simp add: g_def distinct_children_def)
  qed
  have "\<forall>kv \<in> set (map (\<lambda>(k', n). if k' = k then (k', g n) else (k', n)) c0).
      distinct_keys (snd kv)"
  proof
    fix kv
    assume "kv \<in> set (map (\<lambda>(k', n). if k' = k then (k', g n) else (k', n)) c0)"
    then obtain k' n where kn: "(k', n) \<in> set c0" "kv = (if k' = k then (k', g n) else (k', n))"
      by auto
    have "distinct_keys n"
      using kn(1) Cons.prems(1) by (auto simp: distinct_children_def)
    then show "distinct_keys (snd kv)"
      using kn g [of n] by (cases "k' = k") simp_all
  qed
  then show ?case
    unfolding upd distinct_children_def keys using Cons.prems(1)
    by (simp add: distinct_children_def)
qed

lemma absent_key_unchanged:
  "map_of c k = None \<Longrightarrow> map (\<lambda>(k', n). if k' = k then (k', g n) else (k', n)) c = c"
  by (induction c) (auto split: if_splits)

text \<open>The own dictionary of \<^verbatim>\<open>root\<close>, empty as long as \<^verbatim>\<open>root\<close> has none.\<close>

definition root_content :: "object_state \<Rightarrow> children_obj" where
  "root_content st = (case root_children st of None \<Rightarrow> [] | Some c \<Rightarrow> c)"

lemma walk_node:
  assumes "prototype_children st = None" and "root_children st = Some c0"
    and "distinct_children c0" and "plain_segments rest"
  shows "fst (walk rest (st, Node RootObject ks, agg)) =
      st\<lparr>root_children := Some (update_at ks (trie_insert agg rest) c0)\<rparr>"
  using assms
proof (induction rest arbitrary: st c0 ks agg)
  case Nil
  have "trie_insert agg [] = (\<lambda>c. c)"
    by (rule ext) simp
  then show ?case
    using Nil.prems(2) by (simp add: update_at_ident)
next
  case (Cons seg rest)
  define agg' where "agg' = agg @ [slash] @ seg"
  define c where "c = descend ks c0"
  define t where "t = (if rest = [] then File else Folder)"
  have seg: "seg \<noteq> utf16 ''__proto__''" "seg \<notin> set function_members"
    and rest: "plain_segments rest"
    using Cons.prems(4) by (simp_all add: plain_segments_def object_prototype_keys_def)
  have rd: "read_children (RootObject, ks) st = c"
    using Cons.prems(2) by (simp add: read_children_def own_children_def c_def)
  show ?case
  proof (cases "map_of c seg")
    case (Some n)
    have visit: "visit_segment seg (rest = []) (st, Node RootObject ks, agg) =
        (st, Node RootObject (ks @ [seg]), agg')"
      using Some rd by (simp add: visit_segment_def children_of_def agg'_def)
    have "update_at [seg] (trie_insert agg' rest) c = trie_insert agg (seg # rest) c"
      using Some by (auto simp: Let_def agg'_def)
    then have "update_at ks (update_at [seg] (trie_insert agg' rest)) c0 =
        update_at ks (trie_insert agg (seg # rest)) c0"
      using Cons.prems(3) unfolding c_def by (intro update_at_cong)
    then have eq: "update_at (ks @ [seg]) (trie_insert agg' rest) c0 =
        update_at ks (trie_insert agg (seg # rest)) c0"
      by (simp only: update_at_snoc)
    have "fst (walk (seg # rest) (st, Node RootObject ks, agg)) =
        fst (walk rest (st, Node RootObject (ks @ [seg]), agg'))"
      by (simp only: walk.simps visit)
    also have "\<dots> = st\<lparr>root_children := Some (update_at (ks @ [seg]) (trie_insert agg' rest) c0)\<rparr>"
      using Cons.prems(1,2,3) rest by (rule Cons.IH)
    finally show ?thesis
      by (simp only: eq)
  next
    case None
    define N where "N = PathNode seg agg' t []"
    define c1 where "c1 = update_at ks (\<lambda>c. c @ [(seg, N)]) c0"
    define st1 where "st1 = st\<lparr>root_children := Some c1\<rparr>"
    have visit: "visit_segment seg (rest = []) (st, Node RootObject ks, agg) =
        (st1, Node RootObject (ks @ [seg]), agg')"
      using None rd seg Cons.prems(1,2)
      by (simp add: visit_segment_def children_of_def agg'_def add_child_def own_children_def
          set_own_children_def st1_def c1_def N_def t_def Let_def)
    have dc: "distinct_children c"
      unfolding c_def using Cons.prems(3) by (rule descend_distinct)
    have "seg \<notin> fst ` set c"
      using None by (simp add: map_of_eq_None_iff)
    then have "distinct_children (c @ [(seg, N)])"
      using dc by (auto simp: distinct_children_def N_def)
    then have d1: "distinct_children c1"
      unfolding c1_def c_def using Cons.prems(3) by (intro update_at_distinct)
    have p1: "prototype_children st1 = None" "root_children st1 = Some c1"
      using Cons.prems(1) by (simp_all add: st1_def)
    have "update_at [seg] (trie_insert agg' rest) (c @ [(seg, N)]) =
        trie_insert agg (seg # rest) c"
      using None by (simp add: Let_def agg'_def N_def t_def absent_key_unchanged)
    then have "update_at ks (\<lambda>c. update_at [seg] (trie_insert agg' rest) (c @ [(seg, N)])) c0 =
        update_at ks (trie_insert agg (seg # rest)) c0"
      using Cons.prems(3) unfolding c_def by (intro update_at_cong)
    then have eq: "update_at (ks @ [seg]) (trie_insert agg' rest) c1 =
        update_at ks (trie_insert agg (seg # rest)) c0"
      by (simp only: update_at_snoc c1_def update_at_comp)
    have "fst (walk (seg # rest) (st, Node RootObject ks, agg)) =
        fst (walk rest (st1, Node RootObject (ks @ [seg]), agg'))"
      by (simp only: walk.simps visit)
    also have "\<dots> = st1\<lparr>root_children := Some (update_at (ks @ [seg]) (trie_insert agg' rest) c1)\<rparr>"
      using p1 d1 rest by (rule Cons.IH)
    also have "\<dots> = st\<lparr>root_children := Some (update_at ks (trie_insert agg (seg # rest)) c0)\<rparr>"
      by (simp only: eq) (simp add: st1_def)
    finally show ?thesis .
  qed
qed

lemma visit_from_root:
  assumes "prototype_children st = None"
  shows "visit_segment seg b (st, Holder RootObject, agg) =
      visit_segment seg b (st\<lparr>root_children := Some (root_content st)\<rparr>, Node RootObject [], agg)"
proof (cases "root_children st")
  case None
  then show ?thesis
    using assms
    by (simp add: visit_segment_def children_of_def own_children_def set_own_children_def
        root_content_def)
next
  case (Some c)
  then have "st\<lparr>root_children := Some (root_content st)\<rparr> = st"
    by (simp add: root_content_def)
  then show ?thesis
    using Some by (simp add: visit_segment_def children_of_def own_children_def)
qed

lemma insert_full_plain:
  assumes "prototype_children st = None" and "distinct_children (root_content st)"
    and "plain_segments (path_parts full)"
  shows "prototype_children (insert_full full st) = None"
    and "root_content (insert_full full st) = trie_insert [] (path_parts full) (root_content st)"
proof -
  have "prototype_children (insert_full full st) = None \<and>
      root_content (insert_full full st) = trie_insert [] (path_parts full) (root_content st)"
  proof (cases "path_parts full")
    case Nil
    then show ?thesis
      using assms(1) by (simp add: insert_full_def)
  next
    case (Cons seg rest)
    define st1 where "st1 = st\<lparr>root_children := Some (root_content st)\<rparr>"
    have p1: "prototype_children st1 = None" "root_children st1 = Some (root_content st)"
      using assms(1) by (simp_all add: st1_def)
    have "insert_full full st = fst (walk (seg # rest) (st1, Node RootObject [], []))"
      using visit_from_root [OF assms(1)] by (simp add: insert_full_def Cons st1_def)
    also have "\<dots> = st1\<lparr>root_children :=
        Some (update_at [] (trie_insert [] (seg # rest)) (root_content st))\<rparr>"
      using p1 assms(2) assms(3) [unfolded Cons] by (rule walk_node)
    finally have "insert_full full st =
        st1\<lparr>root_children := Some (trie_insert [] (seg # rest) (root_content st))\<rparr>"
      by (simp only: update_at.simps)
    then show ?thesis
      using assms(1) by (simp add: Cons st1_def root_content_def)
  qed
  then show "prototype_children (insert_full full st) = None"
    and "root_content (insert_full full st) = trie_insert [] (path_parts full) (root_content st)"
    by simp_all
qed

lemma fold_insert_full_plain:
  assumes "prototype_children st = None" and "distinct_children (root_content st)"
    and "\<forall>p \<in> set paths. plain_segments (path_parts p)"
  shows "prototype_children (fold insert_full paths st) = None \<and>
    root_content (fold insert_full paths st) =
      fold (\<lambda>full. trie_insert [] (path_parts full)) paths (root_content st)"
  using assms
proof (induction paths arbitrary: st)
  case Nil
  then show ?case by simp
next
  case (Cons p paths)
  have plain: "plain_segments (path_parts p)"
    using Cons.prems(3) by simp
  have 1: "prototype_children (insert_full p st) = None"
    and 2: "root_content (insert_full p st) = trie_insert [] (path_parts p) (root_content st)"
    using insert_full_plain [OF Cons.prems(1,2) plain] by simp_all
  have 3: "distinct_children (root_content (insert_full p st))"
    unfolding 2 using Cons.prems(2) by (rule trie_insert_distinct)
  show ?case
    using Cons.IH [OF 1 3] Cons.prems(3) 2 by simp
qed

lemma path_parts_nonempty: "\<forall>s \<in> set (path_parts p). s \<noteq> []"
  by (simp add: path_parts_def)

text \<open>No segment of any path names a member of \<^verbatim>\<open>Object.prototype\<close>.\<close>

definition plain_paths :: "jstring list \<Rightarrow> bool" where
  "plain_paths paths =
     (\<forall>p \<in> set paths. \<forall>s \<in> set (path_parts p). s \<notin> set object_prototype_keys)"

lemma buildTreeFromFilePaths_plain:
  assumes "prototype_children st = None" and "plain_paths paths"
  shows "fst (buildTreeFromFilePaths st paths) =
      toNodes 0 (fold (\<lambda>full. trie_insert [] (path_parts full)) paths [])"
    and "prototype_children (snd (buildTreeFromFilePaths st paths)) = None"
proof -
  define st0 where "st0 = st\<lparr>root_children := None\<rparr>"
  have plain: "\<forall>p \<in> set paths. plain_segments (path_parts p)"
    using assms(2) path_parts_nonempty by (auto simp: plain_paths_def plain_segments_def)
  have start: "prototype_children st0 = None" "distinct_children (root_content st0)"
    using assms(1) by (simp_all add: st0_def root_content_def distinct_children_def)
  have res: "prototype_children (fold insert_full paths st0) = None"
    "root_content (fold insert_full paths st0) =
       fold (\<lambda>full. trie_insert [] (path_parts full)) paths []"
    using fold_insert_full_plain [OF start plain] by (simp_all add: st0_def root_content_def)
  have "root_view (fold insert_full paths st0) = root_content (fold insert_full paths st0)"
    using res(1) by (simp add: root_view_def root_content_def split: option.splits)
  then show "fst (buildTreeFromFilePaths st paths) =
      toNodes 0 (fold (\<lambda>full. trie_insert [] (path_parts full)) paths [])"
    using res(2) by (simp add: buildTreeFromFilePaths_def Let_def st0_def)
  show "prototype_children (snd (buildTreeFromFilePaths st paths)) = None"
    using res(1) by (simp add: buildTreeFromFilePaths_def Let_def st0_def)
qed

subsection \<open>Comparing the forests\<close>

text \<open>
  The entry-built forest in the form the path-built one has: siblings in the order of
  their names, every path with a leading slash, levels and \<^verbatim>\<open>supported\<close> left out.
\<close>

fun canon_node :: "tree_node \<Rightarrow> outline" where
  "canon_node (TreeNode nm p t l s cs) =
     Outline nm ([slash] @ p) t (map canon_node (sort_key n_name cs))"

definition canon_forest :: "tree_node list \<Rightarrow> outline list" where
  "canon_forest forest = map canon_node (sort_key n_name forest)"

text \<open>
  No path of the list runs through a name that another path uses as a file: no sequence
  of segments is a proper prefix of another one. Paths without any segment are ignored.
\<close>

definition prefix_free :: "jstring list \<Rightarrow> bool" where
  "prefix_free paths =
     (\<forall>p \<in> set paths. \<forall>q \<in> set paths.
        path_parts p \<noteq> [] \<longrightarrow> \<not> strict_prefix (path_parts p) (path_parts q))"

definition rooted :: "jstring \<Rightarrow> bool" where
  "rooted agg = (agg = [] \<or> (\<exists>a. agg = [slash] @ a))"

lemma insort_key_map:
  assumes "f (g x) = h x" and "\<forall>y \<in> set ys. f (g y) = h y"
  shows "insort_key f (g x) (map g ys) = map g (insort_key h x ys)"
  using assms by (induction ys) simp_all

lemma sort_key_map:
  assumes "\<forall>x \<in> set xs. f (g x) = h x"
  shows "sort_key f (map g xs) = map g (sort_key h xs)"
  using assms
proof (induction xs)
  case Nil
  then show ?case by simp
next
  case (Cons x xs)
  have "sort_key f (map g xs) = map g (sort_key h xs)"
    using Cons by simp
  moreover have "insort_key f (g x) (map g (sort_key h xs)) = map g (insort_key h x (sort_key h xs))"
    using Cons.prems by (intro insort_key_map) simp_all
  ultimately show ?case by simp
qed

lemma sorted_forest:
  assumes "\<forall>kv \<in> set ch. p_name (snd kv) = fst kv"
  shows "sort_key n_name (as_entry_forest lvl ch) =
      map (as_entry_tree lvl) (map snd (sort_key fst ch))"
proof -
  have "sort_key n_name (map (\<lambda>kv. as_entry_tree lvl (snd kv)) ch) =
      map (\<lambda>kv. as_entry_tree lvl (snd kv)) (sort_key fst ch)"
    using assms by (intro sort_key_map) (simp add: as_entry_tree_sel)
  then show ?thesis
    by (simp add: as_entry_forest_def comp_def)
qed

lemma canon_as_entry_tree:
  assumes "wf_trie agg v" and "rooted agg"
  shows "canon_node (as_entry_tree lvl v) = outline_of (toNode lvl v)"
  using assms
proof (induction lvl v arbitrary: agg rule: as_entry_tree.induct)
  case (1 lvl nm p t cs)
  have p: "p = agg @ [slash] @ nm" and wf: "wf_children p cs" and fl: "t = File \<longrightarrow> cs = []"
    using "1.prems"(1) unfolding wf_trie_iff by blast+
  have rp: "rooted p" and sl: "[slash] @ drop 1 p = p"
    using "1.prems"(2) p by (auto simp: rooted_def)
  have names: "\<forall>kv \<in> set cs. p_name (snd kv) = fst kv"
    using wf by (simp add: wf_children_def)
  have sorted: "sort_key n_name (map (as_entry_tree (lvl + 1)) (map snd cs)) =
      map (as_entry_tree (lvl + 1)) (map snd (sort_key fst cs))"
    using sorted_forest [OF names, of "lvl + 1"] by (simp add: as_entry_forest_def)
  have kids: "map canon_node (map (as_entry_tree (lvl + 1)) (map snd (sort_key fst cs))) =
      map outline_of (map (toNode (lvl + 1)) (map snd (sort_key fst cs)))"
  proof -
    have "canon_node (as_entry_tree (lvl + 1) x) = outline_of (toNode (lvl + 1) x)"
      if "x \<in> set (map snd cs)" for x
    proof -
      have "wf_trie p x"
        using that wf by (auto simp: wf_children_def)
      then show ?thesis
        using "1.IH" [OF that _ rp] by simp
    qed
    then show ?thesis
      by simp
  qed
  show ?case
  proof (cases t)
    case Folder
    then show ?thesis
      using sorted kids sl by simp
  next
    case File
    then show ?thesis
      using fl sl by simp
  qed
qed

lemma canon_forest_as_entry:
  assumes "wf_children [] ch"
  shows "canon_forest (as_entry_forest 0 ch) = map outline_of (toNodes 0 ch)"
proof -
  have names: "\<forall>kv \<in> set ch. p_name (snd kv) = fst kv"
    using assms by (simp add: wf_children_def)
  have "canon_node (as_entry_tree 0 x) = outline_of (toNode 0 x)" if "x \<in> set (map snd ch)" for x
  proof -
    have "wf_trie [] x"
      using that assms by (auto simp: wf_children_def)
    then show ?thesis
      by (rule canon_as_entry_tree) (simp add: rooted_def)
  qed
  then show ?thesis
    unfolding canon_forest_def toNodes_def sorted_forest [OF names] by simp
qed

lemma type_at_empty [simp]: "type_at w [] = None"
  by (cases w) simp_all

text \<open>
  The walk through members of \<^verbatim>\<open>Object.prototype\<close>, on concrete paths. A path below a
  function member writes to that function only: nothing is listed, and the next call is
  not affected. A call that walks below \<^verbatim>\<open>__proto__\<close> still lists its own \<^verbatim>\<open>root\<close>;
  it is the calls after it that share \<^verbatim>\<open>Object.prototype.children\<close>, into which then
  also the paths below \<^verbatim>\<open>children\<close> and below a function member are written.
\<close>

lemma prototype_members_examples:
  "fst (buildTreeFromFilePaths initial_objects [utf16 ''constructor/x.ts'', utf16 ''toString'']) = [] \<and>
   prototype_children
     (snd (buildTreeFromFilePaths initial_objects [utf16 ''constructor/x.ts''])) = None \<and>
   map outline_of
     (fst (buildTreeFromFilePaths
        (snd (buildTreeFromFilePaths initial_objects [utf16 ''constructor/x.ts''])) [utf16 ''b.ts''])) =
     [Outline (utf16 ''b.ts'') (utf16 ''/b.ts'') File []] \<and>
   map outline_of
     (fst (buildTreeFromFilePaths initial_objects [utf16 ''__proto__/x.ts'', utf16 ''b.ts''])) =
     [Outline (utf16 ''b.ts'') (utf16 ''/b.ts'') File []] \<and>
   map outline_of
     (fst (buildTreeFromFilePaths
        (snd (buildTreeFromFilePaths initial_objects [utf16 ''__proto__/x.ts'']))
        [utf16 ''children/e'', utf16 ''constructor/f''])) =
     [Outline (utf16 ''e'') (utf16 ''/children/e'') File [],
      Outline (utf16 ''f'') (utf16 ''/constructor/f'') File [],
      Outline (utf16 ''x.ts'') (utf16 ''/__proto__/x.ts'') File []]"
  by code_simp

text \<open>
  Claim C6, as stated: on a sequence of entries and the corresponding flat path list the
  two builders produce forests with the same names, paths, types and structure. They do
  not. For the single path \<^verbatim>\<open>a.ts\<close> the one node of \<^verbatim>\<open>buildTree\<close> has the path
  \<^verbatim>\<open>a.ts\<close> and the one node of \<^verbatim>\<open>buildTreeFromFilePaths\<close> the path \<^verbatim>\<open>/a.ts\<close>; for the
  paths \<^verbatim>\<open>b.ts\<close>, \<^verbatim>\<open>a.ts\<close> the first keeps the order of arrival and the second sorts by
  name.

  Three more differences remain once order and slash are set aside, shown here on forests
  brought to the same order and with the slash added. For the paths \<^verbatim>\<open>a\<close>, \<^verbatim>\<open>a/b\<close> the
  name \<^verbatim>\<open>a\<close> is a file and a folder: \<^verbatim>\<open>buildTree\<close> makes two nodes,
  \<^verbatim>\<open>buildTreeFromFilePaths\<close> one file, below which \<^verbatim>\<open>b\<close> is never listed. For the path
  \<^verbatim>\<open>constructor\<close>, and likewise for \<^verbatim>\<open>__proto__\<close>, the path-based builder reads the
  inherited member and makes no node.
  And after a call on \<^verbatim>\<open>__proto__/x.ts\<close>, which creates \<^verbatim>\<open>Object.prototype.children\<close>,
  a call on \<^verbatim>\<open>b.ts\<close> alone returns the node \<^verbatim>\<open>x.ts\<close> as well.
\<close>

theorem builders_agree_counterexample:
  "map outline_of (buildTree (entriesFromPaths [utf16 ''a.ts''])) =
     [Outline (utf16 ''a.ts'') (utf16 ''a.ts'') File []] \<and>
   map outline_of (fst (buildTreeFromFilePaths initial_objects [utf16 ''a.ts''])) =
     [Outline (utf16 ''a.ts'') (utf16 ''/a.ts'') File []] \<and>
   map outline_of (buildTree (entriesFromPaths [utf16 ''a.ts''])) \<noteq>
     map outline_of (fst (buildTreeFromFilePaths initial_objects [utf16 ''a.ts''])) \<and>
   map n_name (buildTree (entriesFromPaths [utf16 ''b.ts'', utf16 ''a.ts''])) =
     [utf16 ''b.ts'', utf16 ''a.ts''] \<and>
   map n_name (fst (buildTreeFromFilePaths initial_objects [utf16 ''b.ts'', utf16 ''a.ts''])) =
     [utf16 ''a.ts'', utf16 ''b.ts''] \<and>
   canon_forest (buildTree (entriesFromPaths [utf16 ''a'', utf16 ''a/b''])) =
     [Outline (utf16 ''a'') (utf16 ''/a'') File [],
      Outline (utf16 ''a'') (utf16 ''/a'') Folder [Outline (utf16 ''b'') (utf16 ''/a/b'') File []]] \<and>
   map outline_of (fst (buildTreeFromFilePaths initial_objects [utf16 ''a'', utf16 ''a/b''])) =
     [Outline (utf16 ''a'') (utf16 ''/a'') File []] \<and>
   canon_forest (buildTree (entriesFromPaths [utf16 ''constructor''])) =
     [Outline (utf16 ''constructor'') (utf16 ''/constructor'') File []] \<and>
   map outline_of (fst (buildTreeFromFilePaths initial_objects [utf16 ''constructor''])) = [] \<and>
   canon_forest (buildTree (entriesFromPaths [utf16 ''__proto__''])) =
     [Outline (utf16 ''__proto__'') (utf16 ''/__proto__'') File []] \<and>
   map outline_of (fst (buildTreeFromFilePaths initial_objects [utf16 ''__proto__''])) = [] \<and>
   canon_forest (buildTree (entriesFromPaths [utf16 ''b.ts''])) =
     [Outline (utf16 ''b.ts'') (utf16 ''/b.ts'') File []] \<and>
   map outline_of
     (fst (buildTreeFromFilePaths
        (snd (buildTreeFromFilePaths initial_objects [utf16 ''__proto__/x.ts''])) [utf16 ''b.ts''])) =
     [Outline (utf16 ''b.ts'') (utf16 ''/b.ts'') File [],
      Outline (utf16 ''x.ts'') (utf16 ''/__proto__/x.ts'') File []]"
  by code_simp

text \<open>
  Claim C6, amended. Take any list of file paths in which no path is a proper prefix of
  another (no name is a file for one path and a folder for another) and no segment names
  a member of \<^verbatim>\<open>Object.prototype\<close>, and a call of \<^verbatim>\<open>buildTreeFromFilePaths\<close> made while
  \<^verbatim>\<open>Object.prototype\<close> has no property \<^verbatim>\<open>children\<close>. Then \<^verbatim>\<open>buildTree\<close>, run on the
  entries the page derives from these paths, and \<^verbatim>\<open>buildTreeFromFilePaths\<close>, run on the
  paths, produce forests with the same names, folder/file types and parent-child
  structure, up to two differences: \<^verbatim>\<open>buildTreeFromFilePaths\<close> orders the siblings by
  name where \<^verbatim>\<open>buildTree\<close> keeps them in first-seen order, and it writes every path with
  a leading slash. Once the entry-built forest is sorted by name and its paths are given
  the slash, the forests are equal (levels left out). Such a call leaves
  \<^verbatim>\<open>Object.prototype\<close> without a property \<^verbatim>\<open>children\<close>, so the same holds for the call
  after it.
\<close>

theorem builders_agree_up_to_order_and_slash:
  assumes "prototype_children st = None" and "prefix_free paths" and "plain_paths paths"
  shows "canon_forest (buildTree (entriesFromPaths paths)) =
      map outline_of (fst (buildTreeFromFilePaths st paths)) \<and>
    prototype_children (snd (buildTreeFromFilePaths st paths)) = None"
proof -
  define pss where "pss = map path_parts paths"
  have plain: "\<forall>ps \<in> set pss. plain_segments ps"
    using assms(3) path_parts_nonempty
    by (auto simp: pss_def plain_paths_def plain_segments_def)
  have free: "all_free ({} \<union> set pss)"
    using assms(2) by (auto simp: pss_def prefix_free_def all_free_def)
  have start: "wf_children [] []" "trie_reflects [] {}" "[] \<notin> ({} :: jstring list set)"
    by (simp_all add: wf_children_def trie_reflects_def)
  have entry: "buildTree (entriesFromPaths paths) =
      fold (\<lambda>ps. chain_insert (path_entries [] 0 ps)) pss (as_entry_forest 0 [])"
    unfolding buildTree_entriesFromPaths pss_def
    by (simp add: fold_map comp_def as_entry_forest_def)
  have path: "fst (buildTreeFromFilePaths st paths) = toNodes 0 (fold (trie_insert []) pss [])"
    unfolding buildTreeFromFilePaths_plain(1) [OF assms(1,3)] pss_def
    by (simp add: fold_map comp_def)
  have step: "fold (\<lambda>ps. chain_insert (path_entries [] 0 ps)) pss (as_entry_forest 0 []) =
      as_entry_forest 0 (fold (trie_insert []) pss [])"
    and wf: "wf_children [] (fold (trie_insert []) pss [])"
    using builders_in_step [OF start free plain] by simp_all
  have "canon_forest (buildTree (entriesFromPaths paths)) =
      map outline_of (fst (buildTreeFromFilePaths st paths))"
    unfolding entry path step by (rule canon_forest_as_entry) (rule wf)
  then show ?thesis
    using buildTreeFromFilePaths_plain(2) [OF assms(1,3)] by simp
qed

theorem builders_agree_up_to_order_and_slash_witness:
  "prototype_children initial_objects = None \<and>
   prefix_free [utf16 ''src/a.ts'', utf16 ''src/b/c.ts'', utf16 ''readme.md''] \<and>
   plain_paths [utf16 ''src/a.ts'', utf16 ''src/b/c.ts'', utf16 ''readme.md''] \<and>
   canon_forest
     (buildTree (entriesFromPaths [utf16 ''src/a.ts'', utf16 ''src/b/c.ts'', utf16 ''readme.md''])) =
     map outline_of
       (fst (buildTreeFromFilePaths initial_objects
          [utf16 ''src/a.ts'', utf16 ''src/b/c.ts'', utf16 ''readme.md''])) \<and>
   prototype_children
     (snd (buildTreeFromFilePaths initial_objects
        [utf16 ''src/a.ts'', utf16 ''src/b/c.ts'', utf16 ''readme.md''])) = None \<and>
   map outline_of
     (fst (buildTreeFromFilePaths initial_objects
        [utf16 ''src/a.ts'', utf16 ''src/b/c.ts'', utf16 ''readme.md''])) =
     [Outline (utf16 ''readme.md'') (utf16 ''/readme.md'') File [],
      Outline (utf16 ''src'') (utf16 ''/src'') Folder
        [Outline (utf16 ''a.ts'') (utf16 ''/src/a.ts'') File [],
         Outline (utf16 ''b'') (utf16 ''/src/b'') Folder
           [Outline (utf16 ''c.ts'') (utf16 ''/src/b/c.ts'') File []]]] \<and>
   map outline_of
     (buildTree (entriesFromPaths [utf16 ''src/a.ts'', utf16 ''src/b/c.ts'', utf16 ''readme.md''])) =
     [Outline (utf16 ''src'') (utf16 ''src'') Folder
        [Outline (utf16 ''a.ts'') (utf16 ''src/a.ts'') File [],
         Outline (utf16 ''b'') (utf16 ''src/b'') Folder
           [Outline (utf16 ''c.ts'') (utf16 ''src/b/c.ts'') File []]],
      Outline (utf16 ''readme.md'') (utf16 ''readme.md'') File []] \<and>
   map n_name (fst (buildTreeFromFilePaths initial_objects [[0xFFFF], [0xD800, 0xDC00]])) =
     [[0xD800, 0xDC00], [0xFFFF]]"
proof -
  define paths where "paths = [utf16 ''src/a.ts'', utf16 ''src/b/c.ts'', utf16 ''readme.md'']"
  have clean: "prototype_children initial_objects = None"
    by (simp add: initial_objects_def)
  have free: "prefix_free paths"
    unfolding paths_def by code_simp
  have plain: "plain_paths paths"
    unfolding paths_def by code_simp
  have by_paths: "map outline_of (fst (buildTreeFromFilePaths initial_objects paths)) =
     [Outline (utf16 ''readme.md'') (utf16 ''/readme.md'') File [],
      Outline (utf16 ''src'') (utf16 ''/src'') Folder
        [Outline (utf16 ''a.ts'') (utf16 ''/src/a.ts'') File [],
         Outline (utf16 ''b'') (utf16 ''/src/b'') Folder
           [Outline (utf16 ''c.ts'') (utf16 ''/src/b/c.ts'') File []]]]"
    unfolding paths_def by code_simp
  have by_entries: "map outline_of (buildTree (entriesFromPaths paths)) =
     [Outline (utf16 ''src'') (utf16 ''src'') Folder
        [Outline (utf16 ''a.ts'') (utf16 ''src/a.ts'') File [],
         Outline (utf16 ''b'') (utf16 ''src/b'') Folder
           [Outline (utf16 ''c.ts'') (utf16 ''src/b/c.ts'') File []]],
      Outline (utf16 ''readme.md'') (utf16 ''readme.md'') File []]"
    unfolding paths_def by code_simp
  have units: "map n_name (fst (buildTreeFromFilePaths initial_objects [[0xFFFF], [0xD800, 0xDC00]])) =
     [[0xD800, 0xDC00], [0xFFFF]]"
    by code_simp
  show ?thesis
    using builders_agree_up_to_order_and_slash [OF clean free plain] clean free plain
      by_paths by_entries units
    unfolding paths_def by blast
qed

end
